theory Spec2Isabelle
  imports Main
begin

section \<open>Data model (Types/MoveResult.h)\<close>

text \<open>
  The engine keys every cell by a packed \<open>int32\<close>: \<open>(x << 8) + y\<close>.  Keys and
  coordinates are modelled as \<open>int\<close>, holding the value of the \<open>int32\<close>.  A caller may hand
  in any \<open>Position\<close>, so \<open>to_position_key\<close> carries the 32-bit arithmetic: the shift and the
  addition wrap around in two's complement (\<open>wrap32\<close>), and \<open>Position{16777216, 0}\<close> has the
  key 0.  Every key of a constructed board lies in \<open>0..2570\<close> and a step function moves
  a key by at most 513, twice at most before the key is looked up, so the step
  functions never leave the 32-bit range on the values that occur; \<open>key >> 8\<close> is the
  arithmetic shift (\<open>div 256\<close>, rounding down) and \<open>key & 0xFF\<close> is \<open>mod 256\<close>.

  Names follow the source.  The fields \<open>x\<close>, \<open>y\<close> of \<open>Position\<close> are \<open>pos_x\<close>, \<open>pos_y\<close>; the
  overload \<open>to_position_key(Position)\<close> is \<open>pos_key\<close>; \<open>Cell::set_piece\<close> is \<open>cell_set_piece\<close>;
  the constant \<open>max\<close> is \<open>board_max\<close>.  A member function that changes a board returns
  its result paired with the new board.
\<close>

record Position =
  pos_x :: int
  pos_y :: int

datatype PieceType = none | pawn | knight | bishop | rook | queen | king

datatype PieceColor = absent | white | black

record Cell =
  piece :: PieceType
  piece_color :: PieceColor

text \<open>
  \<open>map<int32, Cell*>\<close> is an ordered map; iterating it visits the keys in ascending
  order.  It is modelled as an association list kept in ascending key order, each
  (non-null) pointer replaced by the cell it points to.  Reading \<open>in_board[key]\<close> at a
  missing key default-inserts a null pointer, and every such read of the source is
  followed at once by a member call through that pointer: this is the error \<open>NullDeref\<close>.
\<close>

type_synonym board = "(int \<times> Cell) list"

datatype error = NullDeref

subsection \<open>Cell\<close>

definition empty_cell :: Cell where
  "empty_cell = \<lparr>piece = none, piece_color = absent\<rparr>"

definition cell_set_piece :: "Cell \<Rightarrow> PieceType \<Rightarrow> PieceColor \<Rightarrow> Cell" where
  "cell_set_piece c pt pc = c\<lparr>piece := pt, piece_color := pc\<rparr>"

definition remove_piece :: "Cell \<Rightarrow> Cell" where
  "remove_piece c = c\<lparr>piece := none, piece_color := absent\<rparr>"

definition has_piece :: "Cell \<Rightarrow> bool" where
  "has_piece c = (piece c \<noteq> none)"

definition has_piece_of_same_color :: "Cell \<Rightarrow> Cell \<Rightarrow> bool" where
  "has_piece_of_same_color c cell =
     (let other_color = piece_color cell in
      piece c \<noteq> none \<and> piece_color c \<noteq> absent \<and> other_color \<noteq> absent
        \<and> piece_color c = other_color)"

definition has_piece_of_opposite_color :: "Cell \<Rightarrow> Cell \<Rightarrow> bool" where
  "has_piece_of_opposite_color c cell =
     (let other_color = piece_color cell in
      piece c \<noteq> none \<and> piece_color c \<noteq> absent \<and> other_color \<noteq> absent
        \<and> piece_color c \<noteq> other_color)"

fun opposite_color :: "PieceColor \<Rightarrow> PieceColor" where
  "opposite_color white = black"
| "opposite_color black = white"
| "opposite_color absent = absent"

definition get_opposite_color :: "Cell \<Rightarrow> PieceColor" where
  "get_opposite_color c = opposite_color (piece_color c)"

subsection \<open>Board constants and key arithmetic\<close>

text \<open>\<open>piece_values[t]\<close> on the \<open>std::map\<close> yields the default 0 for \<open>none\<close>.\<close>

fun piece_values :: "PieceType \<Rightarrow> int" where
  "piece_values pawn = 1"
| "piece_values knight = 3"
| "piece_values bishop = 3"
| "piece_values rook = 5"
| "piece_values queen = 9"
| "piece_values king = 100"
| "piece_values none = 0"

definition median :: int where "median = 5"

definition board_max :: int where "board_max = 10"

definition step_x :: int where "step_x = 256"

definition white_pawn_cell_keys :: "int list" where
  "white_pawn_cell_keys = [256, 513, 770, 1027, 1284, 1539, 1794, 2049, 2304]"

definition black_pawn_cell_keys :: "int list" where
  "black_pawn_cell_keys = [262, 518, 774, 1030, 1286, 1542, 1798, 2054, 2310]"

text \<open>The value of an \<open>int32\<close> after an operation whose exact result is \<open>n\<close>.\<close>

definition wrap32 :: "int \<Rightarrow> int" where
  "wrap32 n = (n + 2147483648) mod 4294967296 - 2147483648"

definition to_position_key :: "int \<Rightarrow> int \<Rightarrow> int" where
  "to_position_key x y = wrap32 (wrap32 (x * 256) + y)"

definition pos_key :: "Position \<Rightarrow> int" where
  "pos_key pos = to_position_key (pos_x pos) (pos_y pos)"

definition get_x :: "int \<Rightarrow> int" where
  "get_x key = key div 256"

definition get_y :: "int \<Rightarrow> int" where
  "get_y key = key mod 256"

definition to_position :: "int \<Rightarrow> Position" where
  "to_position key = \<lparr>pos_x = get_x key, pos_y = get_y key\<rparr>"

definition is_valid_position :: "board \<Rightarrow> int \<Rightarrow> bool" where
  "is_valid_position in_board key = (map_of in_board key \<noteq> None)"

subsection \<open>Constructor\<close>

text \<open>\<open>board_map[pos] = cell\<close>: insert or assign in the ordered map.\<close>

fun map_assign :: "int \<Rightarrow> Cell \<Rightarrow> board \<Rightarrow> board" where
  "map_assign k v [] = [(k, v)]"
| "map_assign k v ((k', v') # b) =
     (if k < k' then (k, v) # (k', v') # b
      else if k = k' then (k, v) # b
      else (k', v') # map_assign k v b)"

definition column_y_max :: "int \<Rightarrow> int" where
  "column_y_max x =
     (let y_max = median + x in
      if y_max > board_max then board_max - y_max mod board_max else y_max)"

definition Board :: board where
  "Board =
     fold (\<lambda>x b. fold (\<lambda>y b. map_assign (to_position_key x y) empty_cell b)
                       [0..column_y_max x] b)
          [0..board_max] []"

definition valid_keys :: "int list" where
  "valid_keys = map fst Board"

section \<open>Move generation\<close>

subsection \<open>Directional steps\<close>

definition move_vertically_up :: "int \<Rightarrow> int" where
  "move_vertically_up key = key + 1"

definition move_vertically_down :: "int \<Rightarrow> int" where
  "move_vertically_down key = key - 1"

definition move_horizontally_top_right :: "int \<Rightarrow> int" where
  "move_horizontally_top_right key =
     (if get_x key < median then key + step_x + 1 else key + step_x)"

definition move_horizontally_top_left :: "int \<Rightarrow> int" where
  "move_horizontally_top_left key =
     (if get_x key > median then key - step_x + 1 else key - step_x)"

definition move_horizontally_bottom_right :: "int \<Rightarrow> int" where
  "move_horizontally_bottom_right key =
     (if get_x key < median then key + step_x else key + step_x - 1)"

definition move_horizontally_bottom_left :: "int \<Rightarrow> int" where
  "move_horizontally_bottom_left key =
     (if get_x key > median then key - step_x else key - step_x - 1)"

definition move_diagonally_top_right :: "int \<Rightarrow> int" where
  "move_diagonally_top_right key =
     (if get_x key < median then key + step_x + 2 else key + step_x + 1)"

definition move_diagonally_top_left :: "int \<Rightarrow> int" where
  "move_diagonally_top_left key =
     (if get_x key > median then key - step_x + 2 else key - step_x + 1)"

definition move_diagonally_bottom_right :: "int \<Rightarrow> int" where
  "move_diagonally_bottom_right key =
     (if get_x key < median then key + step_x - 1 else key + step_x - 2)"

definition move_diagonally_bottom_left :: "int \<Rightarrow> int" where
  "move_diagonally_bottom_left key =
     (if get_x key > median then key - step_x - 1 else key - step_x - 2)"

text \<open>\<open>x % 2 == 0\<close> holds for the same \<open>x\<close> under C++ truncation and under \<open>mod\<close>.\<close>

definition move_diagonally_right :: "int \<Rightarrow> int" where
  "move_diagonally_right key =
     (let x = get_x key in
      if x mod 2 = 0 then
        (if x = median - 1 then key + step_x * 2
         else if x < median then key + step_x * 2 + 1
         else key + step_x * 2 - 1)
      else
        (if x < median then key + step_x * 2 + 1
         else key + step_x * 2 - 1))"

definition move_diagonally_left :: "int \<Rightarrow> int" where
  "move_diagonally_left key =
     (let x = get_x key in
      if x mod 2 = 0 then
        (if x = median + 1 then key - step_x * 2
         else if x < median then key - step_x * 2 - 1
         else key - step_x * 2 + 1)
      else
        (if x \<le> median then key - step_x * 2 - 1
         else key - step_x * 2 + 1))"

text \<open>
  \<open>TMoveFn\<close> is a pointer to one of the twelve static step functions; a value of the
  datatype names the function pointed to and \<open>call\<close> applies it.
\<close>

datatype TMoveFn =
    VerticallyUp | VerticallyDown
  | HorizontallyTopRight | HorizontallyTopLeft
  | HorizontallyBottomRight | HorizontallyBottomLeft
  | DiagonallyTopRight | DiagonallyTopLeft
  | DiagonallyBottomRight | DiagonallyBottomLeft
  | DiagonallyRight | DiagonallyLeft

fun call :: "TMoveFn \<Rightarrow> int \<Rightarrow> int" where
  "call VerticallyUp = move_vertically_up"
| "call VerticallyDown = move_vertically_down"
| "call HorizontallyTopRight = move_horizontally_top_right"
| "call HorizontallyTopLeft = move_horizontally_top_left"
| "call HorizontallyBottomRight = move_horizontally_bottom_right"
| "call HorizontallyBottomLeft = move_horizontally_bottom_left"
| "call DiagonallyTopRight = move_diagonally_top_right"
| "call DiagonallyTopLeft = move_diagonally_top_left"
| "call DiagonallyBottomRight = move_diagonally_bottom_right"
| "call DiagonallyBottomLeft = move_diagonally_bottom_left"
| "call DiagonallyRight = move_diagonally_right"
| "call DiagonallyLeft = move_diagonally_left"

text \<open>Every step moves the key strictly up or strictly down; the loop of
  \<open>add_valid_moves\<close> terminates for that reason.\<close>

fun ascending :: "TMoveFn \<Rightarrow> bool" where
  "ascending VerticallyUp = True"
| "ascending HorizontallyTopRight = True"
| "ascending HorizontallyBottomRight = True"
| "ascending DiagonallyTopRight = True"
| "ascending DiagonallyBottomRight = True"
| "ascending DiagonallyRight = True"
| "ascending _ = False"

lemma call_ascending: "ascending fn \<Longrightarrow> key < call fn key"
  by (cases fn)
     (simp_all add: move_vertically_up_def move_horizontally_top_right_def
        move_horizontally_bottom_right_def move_diagonally_top_right_def
        move_diagonally_bottom_right_def move_diagonally_right_def step_x_def Let_def)

lemma call_descending: "\<not> ascending fn \<Longrightarrow> call fn key < key"
  by (cases fn)
     (simp_all add: move_vertically_down_def move_horizontally_top_left_def
        move_horizontally_bottom_left_def move_diagonally_top_left_def
        move_diagonally_bottom_left_def move_diagonally_left_def step_x_def Let_def)

definition beyond :: "TMoveFn \<Rightarrow> int \<Rightarrow> board \<Rightarrow> nat" where
  "beyond fn pos in_board =
     length (filter (\<lambda>k. if ascending fn then pos \<le> k else k \<le> pos) (map fst in_board))"

lemma length_filter_strict:
  "x \<in> set xs \<Longrightarrow> P x \<Longrightarrow> \<not> Q x \<Longrightarrow> (\<And>y. Q y \<Longrightarrow> P y)
     \<Longrightarrow> length (filter Q xs) < length (filter P xs)"
proof (induction xs)
  case Nil
  then show ?case by simp
next
  case (Cons a xs)
  have le: "length (filter Q xs) \<le> length (filter P xs)"
    using Cons.prems(4) by (induction xs) auto
  show ?case
  proof (cases "x = a")
    case True
    with Cons.prems le show ?thesis by simp
  next
    case False
    with Cons have "length (filter Q xs) < length (filter P xs)" by simp
    with Cons.prems(4) show ?thesis by auto
  qed
qed

lemma beyond_decreases:
  assumes "map_of in_board pos = Some c"
  shows "beyond fn (call fn pos) in_board < beyond fn pos in_board"
proof -
  from assms have mem: "pos \<in> set (map fst in_board)"
    by (metis map_of_eq_None_iff option.distinct(1) set_map)
  show ?thesis
  proof (cases "ascending fn")
    case True
    then have "pos < call fn pos" by (rule call_ascending)
    with True mem show ?thesis
      unfolding beyond_def by (intro length_filter_strict [of pos]) auto
  next
    case False
    then have "call fn pos < pos" by (rule call_descending)
    with False mem show ?thesis
      unfolding beyond_def by (intro length_filter_strict [of pos]) auto
  qed
qed

subsection \<open>Candidate moves per piece type\<close>

text \<open>
  A \<open>list<int32>\<close> is a HOL list with its front at the head: \<open>push_front\<close> is \<open>#\<close> and a
  range-for walks the list from its head.
\<close>

definition add_if_valid :: "board \<Rightarrow> int list \<Rightarrow> int \<Rightarrow> Cell \<Rightarrow> bool \<Rightarrow> int list" where
  "add_if_valid in_board l key cell can_take =
     (case map_of in_board key of
        None \<Rightarrow> l
      | Some c \<Rightarrow>
          if has_piece c then
            (if has_piece_of_opposite_color c cell \<and> can_take then key # l else l)
          else key # l)"

definition add_pawn_take_if_valid :: "board \<Rightarrow> int list \<Rightarrow> int \<Rightarrow> Cell \<Rightarrow> int list" where
  "add_pawn_take_if_valid in_board l key cell =
     (case map_of in_board key of
        None \<Rightarrow> l
      | Some c \<Rightarrow> if has_piece_of_opposite_color c cell then key # l else l)"

definition is_initial_pawn_cell :: "int \<Rightarrow> Cell \<Rightarrow> bool" where
  "is_initial_pawn_cell key cell =
     (case piece_color cell of
        white \<Rightarrow> key \<in> set white_pawn_cell_keys
      | black \<Rightarrow> key \<in> set black_pawn_cell_keys
      | absent \<Rightarrow> False)"

text \<open>The body of \<open>add_pawn_moves\<close> after the switch has chosen the three step
  functions.\<close>

definition pawn_moves_with ::
  "(int \<Rightarrow> int) \<Rightarrow> (int \<Rightarrow> int) \<Rightarrow> (int \<Rightarrow> int) \<Rightarrow> board \<Rightarrow> int list \<Rightarrow> int \<Rightarrow> Cell \<Rightarrow> int list"
where
  "pawn_moves_with fn_move fn_take_1 fn_take_2 in_board l key cell =
     (let move = fn_move key;
          l1 = (case map_of in_board move of
                  None \<Rightarrow> l
                | Some c \<Rightarrow>
                    (let l' = add_if_valid in_board l move cell False in
                     if \<not> has_piece c \<and> is_initial_pawn_cell key cell
                     then add_if_valid in_board l' (fn_move move) cell False
                     else l'));
          l2 = add_pawn_take_if_valid in_board l1 (fn_take_1 key) cell
      in add_pawn_take_if_valid in_board l2 (fn_take_2 key) cell)"

definition add_pawn_moves :: "board \<Rightarrow> int list \<Rightarrow> int \<Rightarrow> Cell \<Rightarrow> int list" where
  "add_pawn_moves in_board l key cell =
     (case piece_color cell of
        white \<Rightarrow> pawn_moves_with move_vertically_up move_horizontally_top_left
                   move_horizontally_top_right in_board l key cell
      | black \<Rightarrow> pawn_moves_with move_vertically_down move_horizontally_bottom_left
                   move_horizontally_bottom_right in_board l key cell
      | absent \<Rightarrow> l)"

text \<open>The \<open>while\<close> loop of \<open>add_valid_moves\<close> for one step function, entered at
  \<open>current_pos\<close>.\<close>

function slide :: "board \<Rightarrow> Cell \<Rightarrow> TMoveFn \<Rightarrow> int \<Rightarrow> int list \<Rightarrow> int list" where
  "slide in_board cell fn current_pos l =
     (case map_of in_board current_pos of
        None \<Rightarrow> l
      | Some c \<Rightarrow>
          if has_piece c then
            (if has_piece_of_same_color c cell then l else current_pos # l)
          else slide in_board cell fn (call fn current_pos) (current_pos # l))"
  by pat_completeness auto
termination
  by (relation "measure (\<lambda>(in_board, cell, fn, current_pos, l). beyond fn current_pos in_board)")
     (auto intro: beyond_decreases)

declare slide.simps [simp del]

definition add_valid_moves ::
  "board \<Rightarrow> int list \<Rightarrow> int \<Rightarrow> TMoveFn list \<Rightarrow> Cell \<Rightarrow> int list" where
  "add_valid_moves in_board l key fns cell =
     fold (\<lambda>fn l. slide in_board cell fn (call fn key) l) fns l"

definition add_bishop_moves :: "board \<Rightarrow> int list \<Rightarrow> int \<Rightarrow> Cell \<Rightarrow> int list" where
  "add_bishop_moves in_board l key cell =
     add_valid_moves in_board l key
       [DiagonallyTopRight, DiagonallyTopLeft, DiagonallyBottomRight,
        DiagonallyBottomLeft, DiagonallyRight, DiagonallyLeft] cell"

definition add_rook_moves :: "board \<Rightarrow> int list \<Rightarrow> int \<Rightarrow> Cell \<Rightarrow> int list" where
  "add_rook_moves in_board l key cell =
     add_valid_moves in_board l key
       [HorizontallyTopRight, HorizontallyTopLeft, HorizontallyBottomRight,
        HorizontallyBottomLeft, VerticallyUp, VerticallyDown] cell"

definition add_queen_moves :: "board \<Rightarrow> int list \<Rightarrow> int \<Rightarrow> Cell \<Rightarrow> int list" where
  "add_queen_moves in_board l key cell =
     add_rook_moves in_board (add_bishop_moves in_board l key cell) key cell"

text \<open>The knight and the king call \<open>add_if_valid\<close> on a fixed sequence of targets.\<close>

definition knight_targets :: "int \<Rightarrow> int list" where
  "knight_targets key =
     (let p1 = move_vertically_up (move_vertically_up key);
          p2 = move_vertically_down (move_vertically_down key);
          p3 = move_horizontally_top_right (move_horizontally_top_right key);
          p4 = move_horizontally_bottom_right (move_horizontally_bottom_right key);
          p5 = move_horizontally_bottom_left (move_horizontally_bottom_left key);
          p6 = move_horizontally_top_left (move_horizontally_top_left key)
      in [move_horizontally_top_right p1, move_horizontally_top_left p1,
          move_horizontally_bottom_right p2, move_horizontally_bottom_left p2,
          move_vertically_up p3, move_horizontally_bottom_right p3,
          move_vertically_down p4, move_horizontally_top_right p4,
          move_vertically_down p5, move_horizontally_top_left p5,
          move_vertically_up p6, move_horizontally_bottom_left p6])"

definition king_targets :: "int \<Rightarrow> int list" where
  "king_targets key =
     [move_vertically_up key, move_vertically_down key,
      move_horizontally_top_right key, move_horizontally_top_left key,
      move_horizontally_bottom_right key, move_horizontally_bottom_left key,
      move_diagonally_top_right key, move_diagonally_top_left key,
      move_diagonally_bottom_right key, move_diagonally_bottom_left key,
      move_diagonally_right key, move_diagonally_left key]"

definition add_knight_moves :: "board \<Rightarrow> int list \<Rightarrow> int \<Rightarrow> Cell \<Rightarrow> int list" where
  "add_knight_moves in_board l key cell =
     fold (\<lambda>t l. add_if_valid in_board l t cell True) (knight_targets key) l"

definition add_king_moves :: "board \<Rightarrow> int list \<Rightarrow> int \<Rightarrow> Cell \<Rightarrow> int list" where
  "add_king_moves in_board l key cell =
     fold (\<lambda>t l. add_if_valid in_board l t cell True) (king_targets key) l"

text \<open>The \<open>switch\<close> at the head of \<open>get_valid_moves\<close>, started on the empty list.\<close>

definition candidate_moves :: "board \<Rightarrow> int \<Rightarrow> Cell \<Rightarrow> int list" where
  "candidate_moves in_board key cell =
     (case piece cell of
        none \<Rightarrow> []
      | pawn \<Rightarrow> add_pawn_moves in_board [] key cell
      | bishop \<Rightarrow> add_bishop_moves in_board [] key cell
      | knight \<Rightarrow> add_knight_moves in_board [] key cell
      | rook \<Rightarrow> add_rook_moves in_board [] key cell
      | queen \<Rightarrow> add_queen_moves in_board [] key cell
      | king \<Rightarrow> add_king_moves in_board [] key cell)"

section \<open>Board operations\<close>

text \<open>
  The member functions read two maps: the parameter \<open>in_board\<close> and the member
  \<open>board_map\<close> of the object they are called on.  Both are arguments of the model
  (\<open>board_map\<close> first); the public overloads pass \<open>board_map\<close> for \<open>in_board\<close>.
\<close>

text \<open>\<open>in_board[key]->f(...)\<close> at a key of the board: the cell behind the pointer is
  changed in place, every other cell and the key set stay as they are.\<close>

definition update_cell :: "board \<Rightarrow> int \<Rightarrow> (Cell \<Rightarrow> Cell) \<Rightarrow> board" where
  "update_cell in_board key f = map (\<lambda>(k, c). if k = key then (k, f c) else (k, c)) in_board"

definition set_piece :: "board \<Rightarrow> Position \<Rightarrow> PieceType \<Rightarrow> PieceColor \<Rightarrow> bool \<times> board" where
  "set_piece in_board pos pt pc =
     (let key = pos_key pos in
      if \<not> is_valid_position in_board key then (False, in_board)
      else (False, update_cell in_board key (\<lambda>c. cell_set_piece c pt pc)))"

definition move_piece :: "board \<Rightarrow> Position \<Rightarrow> Position \<Rightarrow> bool \<times> board" where
  "move_piece in_board start goal =
     (let sp = pos_key start in
      if is_valid_position in_board sp \<and> is_valid_position in_board (pos_key goal) then
        (case map_of in_board sp of
           None \<Rightarrow> (True, in_board)
         | Some c \<Rightarrow>
             (let pt = piece c; pc = piece_color c;
                  removed = update_cell in_board sp remove_piece
              in (True, snd (set_piece removed goal pt pc))))
      else (True, in_board))"

definition copy_board_map :: "board \<Rightarrow> board" where
  "copy_board_map board_map =
     map (\<lambda>(key, cell). (key, \<lparr>piece = piece cell, piece_color = piece_color cell\<rparr>)) board_map"

definition get_piece_keys :: "board \<Rightarrow> PieceColor \<Rightarrow> int list" where
  "get_piece_keys in_board pc =
     fold (\<lambda>(key, cell) l. if piece_color cell = pc then key # l else l) in_board []"

text \<open>The search for the king in \<open>get_valid_moves\<close>; \<open>-1\<close> when the loop finds none.\<close>

fun find_king_key :: "board \<Rightarrow> int list \<Rightarrow> error + int" where
  "find_king_key in_board [] = Inr (- 1)"
| "find_king_key in_board (piece_key # rest) =
     (case map_of in_board piece_key of
        None \<Rightarrow> Inl NullDeref
      | Some c \<Rightarrow> if piece c = king then Inr piece_key else find_king_key in_board rest)"

text \<open>
  \<open>get_valid_moves\<close> up to the test \<open>skip_filter || king_key == -1\<close>: the cell read at
  \<open>key\<close>, the candidate list and the king key.  The pieces searched for the king are
  those of \<open>board_map\<close>, looked up in \<open>in_board\<close>.
\<close>

definition gather_moves :: "board \<Rightarrow> board \<Rightarrow> int \<Rightarrow> error + (Cell \<times> int list \<times> int)" where
  "gather_moves board_map in_board key =
     (case map_of in_board key of
        None \<Rightarrow> Inl NullDeref
      | Some cell \<Rightarrow>
          (let l = candidate_moves in_board key cell;
               color_pieces = get_piece_keys board_map (piece_color cell)
           in case find_king_key in_board color_pieces of
                Inl e \<Rightarrow> Inl e
              | Inr king_key \<Rightarrow> Inr (cell, l, king_key)))"

text \<open>
  \<open>get_valid_moves\<close> calls \<open>can_be_captured\<close>, which calls \<open>get_all_piece_move_keys\<close> and
  through it \<open>get_valid_moves\<close> again, always with \<open>skip_filter = true\<close>, where it returns
  before the filter.  The calls with \<open>skip_filter = true\<close> are therefore defined first.
\<close>

definition get_valid_moves_skip :: "board \<Rightarrow> board \<Rightarrow> int \<Rightarrow> error + int list" where
  "get_valid_moves_skip board_map in_board key =
     (case gather_moves board_map in_board key of
        Inl e \<Rightarrow> Inl e
      | Inr (cell, l, king_key) \<Rightarrow> Inr l)"

text \<open>The loop of \<open>get_all_piece_move_keys\<close>: \<open>all_moves.insert(all_moves.end(), ...)\<close>
  appends.\<close>

fun collect_moves :: "(int \<Rightarrow> error + int list) \<Rightarrow> int list \<Rightarrow> int list \<Rightarrow> error + int list" where
  "collect_moves gen [] all_moves = Inr all_moves"
| "collect_moves gen (key # rest) all_moves =
     (case gen key of
        Inl e \<Rightarrow> Inl e
      | Inr moves \<Rightarrow> collect_moves gen rest (all_moves @ moves))"

definition get_all_piece_move_keys_skip :: "board \<Rightarrow> board \<Rightarrow> PieceColor \<Rightarrow> error + int list" where
  "get_all_piece_move_keys_skip board_map in_board pc =
     collect_moves (get_valid_moves_skip board_map in_board) (get_piece_keys in_board pc) []"

definition can_be_captured :: "board \<Rightarrow> board \<Rightarrow> int \<Rightarrow> error + bool" where
  "can_be_captured board_map in_board key =
     (case map_of in_board key of
        None \<Rightarrow> Inl NullDeref
      | Some c \<Rightarrow>
          (case get_all_piece_move_keys_skip board_map in_board (get_opposite_color c) of
             Inl e \<Rightarrow> Inl e
           | Inr all_moves \<Rightarrow> Inr (key \<in> set all_moves)))"

text \<open>The filter loop of \<open>get_valid_moves\<close>: each candidate is tried on a fresh copy of
  \<open>board_map\<close>.\<close>

fun filter_moves :: "board \<Rightarrow> Cell \<Rightarrow> int \<Rightarrow> int \<Rightarrow> int list \<Rightarrow> int list \<Rightarrow> error + int list" where
  "filter_moves board_map cell key king_key [] filtered_list = Inr filtered_list"
| "filter_moves board_map cell key king_key (k # rest) filtered_list =
     (let board_copy = snd (move_piece (copy_board_map board_map) (to_position key) (to_position k));
          final_king_key = (if piece cell = king then k else king_key)
      in case can_be_captured board_map board_copy final_king_key of
           Inl e \<Rightarrow> Inl e
         | Inr captured \<Rightarrow>
             filter_moves board_map cell key king_key rest
               (if \<not> captured then k # filtered_list else filtered_list))"

definition get_valid_moves :: "board \<Rightarrow> board \<Rightarrow> int \<Rightarrow> bool \<Rightarrow> error + int list" where
  "get_valid_moves board_map in_board key skip_filter =
     (case gather_moves board_map in_board key of
        Inl e \<Rightarrow> Inl e
      | Inr (cell, l, king_key) \<Rightarrow>
          if skip_filter \<or> king_key = - 1 then Inr l
          else filter_moves board_map cell key king_key l [])"

definition get_all_piece_move_keys :: "board \<Rightarrow> board \<Rightarrow> PieceColor \<Rightarrow> bool \<Rightarrow> error + int list" where
  "get_all_piece_move_keys board_map in_board pc skip_filter =
     collect_moves (\<lambda>key. get_valid_moves board_map in_board key skip_filter)
       (get_piece_keys in_board pc) []"

text \<open>The two loops of \<open>evaluate\<close>; \<open>pc\<close> says which one: the loop over the black pieces
  has the signs of the loop over the white pieces exchanged.\<close>

fun score_pieces :: "board \<Rightarrow> board \<Rightarrow> PieceColor \<Rightarrow> int list \<Rightarrow> int \<Rightarrow> error + int" where
  "score_pieces board_map in_board pc [] score = Inr score"
| "score_pieces board_map in_board pc (piece_key # rest) score =
     (case map_of in_board piece_key of
        None \<Rightarrow> Inl NullDeref
      | Some c \<Rightarrow>
          if piece c = king then
            (case can_be_captured board_map in_board piece_key of
               Inl e \<Rightarrow> Inl e
             | Inr captured \<Rightarrow>
                 score_pieces board_map in_board pc rest
                   (if captured
                    then (if pc = white then score - piece_values king
                          else score + piece_values king)
                    else score))
          else
            score_pieces board_map in_board pc rest
              (if pc = white then score + piece_values (piece c)
               else score - piece_values (piece c)))"

definition evaluate :: "board \<Rightarrow> board \<Rightarrow> error + int" where
  "evaluate board_map in_board =
     (let white_pieces = get_piece_keys in_board white;
          black_pieces = get_piece_keys in_board black
      in case score_pieces board_map in_board white white_pieces 0 of
           Inl e \<Rightarrow> Inl e
         | Inr score \<Rightarrow> score_pieces board_map in_board black black_pieces score)"

section \<open>The Random AI (Actors/ChessGod.cpp)\<close>

text \<open>
  \<open>AChessGod::CalculateRandomAIMove\<close> on the active board.  \<open>rand\<close> is the sequence of
  the values drawn: the \<open>n\<close>-th call \<open>FMath::RandRange(0, m - 1)\<close> returns \<open>rand n mod m\<close>, which
  can be any index in range.  The \<open>while (!foundValidMove)\<close> loop is a partial function:
  \<open>None\<close> is a call that never returns.  The result is the array \<open>Result\<close>: empty, or
  the positions of the chosen piece and of the chosen move.
\<close>

partial_function (option) random_move_loop ::
  "board \<Rightarrow> int list \<Rightarrow> (nat \<Rightarrow> nat) \<Rightarrow> nat \<Rightarrow> (error + Position list) option" where
  "random_move_loop ActiveBoard PieceKeys rand n =
     (let RandomIndex = rand n mod length PieceKeys;
          RandomPieceKey = PieceKeys ! RandomIndex
      in case get_valid_moves ActiveBoard ActiveBoard RandomPieceKey False of
           Inl e \<Rightarrow> Some (Inl e)
         | Inr PieceMoves \<Rightarrow>
             if length PieceMoves > 0 then
               (let RandomMoveIndex = rand (Suc n) mod length PieceMoves;
                    RandomMoveKey = PieceMoves ! RandomMoveIndex
                in Some (Inr [to_position RandomPieceKey, to_position RandomMoveKey]))
             else random_move_loop ActiveBoard PieceKeys rand (Suc n))"

definition CalculateRandomAIMove ::
  "board \<Rightarrow> bool \<Rightarrow> (nat \<Rightarrow> nat) \<Rightarrow> (error + Position list) option" where
  "CalculateRandomAIMove ActiveBoard IsWhiteAI rand =
     (let PieceKeys = get_piece_keys ActiveBoard (if IsWhiteAI then white else black) in
      if length PieceKeys = 0 then Some (Inr [])
      else random_move_loop ActiveBoard PieceKeys rand 0)"

section \<open>Notions used in the statements\<close>

text \<open>Boards for the examples: the fresh board with pieces placed through \<open>set_piece\<close>,
  as \<open>AChessGod::RegisterPiece\<close> does.\<close>

definition place :: "board \<Rightarrow> int \<Rightarrow> int \<Rightarrow> PieceType \<Rightarrow> PieceColor \<Rightarrow> board" where
  "place b x y pt pc = snd (set_piece b \<lparr>pos_x = x, pos_y = y\<rparr> pt pc)"

text \<open>
  A board is well formed when its keys are those the constructor created, in the
  constructor's order; no member function adds or removes a key.  A board's cells are
  consistent when exactly the cells without a piece have the colour \<open>absent\<close>, as in every
  board reached from the fresh one through \<open>remove_piece\<close>, \<open>move_piece\<close> and the calls
  \<open>set_piece(pos, pt, pc)\<close> of \<open>AChessGod::RegisterPiece\<close>.
\<close>

definition wf_board :: "board \<Rightarrow> bool" where
  "wf_board b = (map fst b = valid_keys)"

definition cells_consistent :: "board \<Rightarrow> bool" where
  "cells_consistent b = list_all (\<lambda>(key, cell). (piece cell = none) = (piece_color cell = absent)) b"

text \<open>The keys of the kings of a colour, in ascending order.\<close>

definition king_keys :: "board \<Rightarrow> PieceColor \<Rightarrow> int list" where
  "king_keys b pc = map fst (filter (\<lambda>(key, cell). piece cell = king \<and> piece_color cell = pc) b)"


text \<open>The candidate moves of the piece on a key, and the keys that some piece of a
  colour has among its candidate moves.\<close>

definition moves_at :: "board \<Rightarrow> int \<Rightarrow> int list" where
  "moves_at ib k = (case map_of ib k of None \<Rightarrow> [] | Some c \<Rightarrow> candidate_moves ib k c)"

definition attacked :: "board \<Rightarrow> PieceColor \<Rightarrow> int \<Rightarrow> bool" where
  "attacked ib pc key = (\<exists>k \<in> set (get_piece_keys ib pc). key \<in> set (moves_at ib k))"

text \<open>The keys a piece standing in \<open>cell\<close> may land on: valid, and not occupied by a
  piece of its own colour.\<close>

definition landing :: "board \<Rightarrow> Cell \<Rightarrow> int set" where
  "landing ib cell = {k. \<exists>c. map_of ib k = Some c \<and> \<not> has_piece_of_same_color c cell}"

text \<open>
  A cell is in check when \<open>can_be_captured\<close>, called on the board itself, returns
  \<open>true\<close>.  \<open>evaluate_spec\<close> follows the words of the specification: every piece counts
  its value, added for white and subtracted for black, except that a king in check
  counts \<open>-100\<close> (white) or \<open>+100\<close> (black) in place of its value.  \<open>evaluate_by_cells\<close>
  differs in one place: a king that is not in check counts 0.
\<close>

definition in_check :: "board \<Rightarrow> int \<Rightarrow> bool" where
  "in_check b key = (can_be_captured b b key = Inr True)"

definition piece_score_spec :: "board \<Rightarrow> int \<Rightarrow> Cell \<Rightarrow> int" where
  "piece_score_spec b key cell =
     (case piece_color cell of
        white \<Rightarrow> if piece cell = king \<and> in_check b key then - 100 else piece_values (piece cell)
      | black \<Rightarrow> if piece cell = king \<and> in_check b key then 100 else - piece_values (piece cell)
      | absent \<Rightarrow> 0)"

definition evaluate_spec :: "board \<Rightarrow> int" where
  "evaluate_spec b = sum_list (map (\<lambda>(key, cell). piece_score_spec b key cell) b)"

definition piece_score :: "board \<Rightarrow> int \<Rightarrow> Cell \<Rightarrow> int" where
  "piece_score b key cell =
     (case piece_color cell of
        white \<Rightarrow> if piece cell = king then (if in_check b key then - 100 else 0)
                  else piece_values (piece cell)
      | black \<Rightarrow> if piece cell = king then (if in_check b key then 100 else 0)
                  else - piece_values (piece cell)
      | absent \<Rightarrow> 0)"

definition evaluate_by_cells :: "board \<Rightarrow> int" where
  "evaluate_by_cells b = sum_list (map (\<lambda>(key, cell). piece_score b key cell) b)"

text \<open>What one iteration of a loop of \<open>evaluate\<close> adds to the score.\<close>

definition contribution :: "board \<Rightarrow> PieceColor \<Rightarrow> int \<Rightarrow> int" where
  "contribution ib pc k =
     (case map_of ib k of
        None \<Rightarrow> 0
      | Some c \<Rightarrow>
          if piece c = king then
            (if attacked ib (get_opposite_color c) k
             then (if pc = white then - 100 else 100) else 0)
          else (if pc = white then piece_values (piece c) else - piece_values (piece c)))"

text \<open>Exchanging the two colours on every cell.\<close>

definition swap_cell :: "Cell \<Rightarrow> Cell" where
  "swap_cell c = c\<lparr>piece_color := opposite_color (piece_color c)\<rparr>"

definition swap_colors :: "board \<Rightarrow> board" where
  "swap_colors b = map (\<lambda>(key, cell). (key, swap_cell cell)) b"

text \<open>
  The four cells a pawn on \<open>key\<close> can capture on: the two \<open>add_pawn_moves\<close> uses for a white
  pawn and the two it uses for a black one.  \<open>kings_off_pawn_captures\<close> says that no king
  stands on any of these cells of any pawn.
\<close>

definition pawn_capture_squares :: "int \<Rightarrow> int list" where
  "pawn_capture_squares key =
     [move_horizontally_top_left key, move_horizontally_top_right key,
      move_horizontally_bottom_left key, move_horizontally_bottom_right key]"

definition kings_off_pawn_captures :: "board \<Rightarrow> bool" where
  "kings_off_pawn_captures b =
     list_all (\<lambda>(key, cell). piece cell = pawn \<longrightarrow>
        list_all (\<lambda>t. case map_of b t of None \<Rightarrow> True | Some c \<Rightarrow> piece c \<noteq> king)
          (pawn_capture_squares key)) b"

section \<open>Facts about the board operations\<close>

lemma get_valid_moves_skip_eq:
  "get_valid_moves board_map in_board key True = get_valid_moves_skip board_map in_board key"
  by (simp add: get_valid_moves_def get_valid_moves_skip_def split: sum.splits)

lemma get_all_piece_move_keys_skip_eq:
  "get_all_piece_move_keys board_map in_board pc True =
     get_all_piece_move_keys_skip board_map in_board pc"
  by (simp add: get_all_piece_move_keys_def get_all_piece_move_keys_skip_def
        get_valid_moves_skip_eq)

lemma map_fst_update_cell: "map fst (update_cell in_board key f) = map fst in_board"
  by (induction in_board) (auto simp: update_cell_def)

lemma map_of_update_cell:
  "map_of (update_cell in_board key f) k =
     (if k = key then map_option f (map_of in_board key) else map_of in_board k)"
  by (induction in_board) (auto simp: update_cell_def)

lemma is_valid_position_update_cell:
  "is_valid_position (update_cell in_board key f) k = is_valid_position in_board k"
  by (simp add: is_valid_position_def map_of_update_cell)

lemma copy_board_map_id: "copy_board_map board_map = board_map"
  by (induction board_map) (auto simp: copy_board_map_def)

lemma remove_piece_empty: "remove_piece c = empty_cell"
  by (simp add: remove_piece_def empty_cell_def)

lemma cell_set_piece_eq: "cell_set_piece c pt pc = \<lparr>piece = pt, piece_color = pc\<rparr>"
  by (simp add: cell_set_piece_def)

lemma map_fst_set_piece: "map fst (snd (set_piece in_board pos pt pc)) = map fst in_board"
  by (simp add: set_piece_def Let_def map_fst_update_cell)

lemma map_fst_move_piece: "map fst (snd (move_piece in_board start goal)) = map fst in_board"
  by (simp add: move_piece_def Let_def map_fst_set_piece map_fst_update_cell split: option.splits)

lemma map_of_set_piece:
  "map_of (snd (set_piece in_board pos pt pc)) k =
     (if k = pos_key pos \<and> is_valid_position in_board k
      then Some \<lparr>piece = pt, piece_color = pc\<rparr> else map_of in_board k)"
  by (auto simp: set_piece_def Let_def map_of_update_cell is_valid_position_def cell_set_piece_eq)

lemma set_piece_invalid:
  "\<not> is_valid_position in_board (pos_key pos) \<Longrightarrow> set_piece in_board pos pt pc = (False, in_board)"
  by (simp add: set_piece_def)

lemma map_of_move_piece:
  assumes "map_of in_board (pos_key start) = Some c"
    and "is_valid_position in_board (pos_key goal)"
  shows "map_of (snd (move_piece in_board start goal)) =
           (map_of in_board)(pos_key start \<mapsto> empty_cell, pos_key goal \<mapsto> c)"
proof
  fix k
  from assms show "map_of (snd (move_piece in_board start goal)) k =
      ((map_of in_board)(pos_key start \<mapsto> empty_cell, pos_key goal \<mapsto> c)) k"
    by (cases c) (auto simp: move_piece_def Let_def map_of_set_piece map_of_update_cell
        is_valid_position_update_cell is_valid_position_def remove_piece_empty)
qed

lemma move_piece_invalid:
  "\<not> (is_valid_position in_board (pos_key start) \<and> is_valid_position in_board (pos_key goal))
     \<Longrightarrow> move_piece in_board start goal = (True, in_board)"
  by (auto simp: move_piece_def Let_def)

lemma gather_moves_invalid:
  "\<not> is_valid_position in_board key \<Longrightarrow> gather_moves board_map in_board key = Inl NullDeref"
  by (simp add: gather_moves_def is_valid_position_def)

lemma get_valid_moves_invalid:
  "\<not> is_valid_position in_board key \<Longrightarrow>
     get_valid_moves board_map in_board key skip_filter = Inl NullDeref"
  by (simp add: get_valid_moves_def gather_moves_invalid)

lemma can_be_captured_invalid:
  "\<not> is_valid_position in_board key \<Longrightarrow> can_be_captured board_map in_board key = Inl NullDeref"
  by (simp add: can_be_captured_def is_valid_position_def)

lemma wrap32_id: "- 2147483648 \<le> n \<Longrightarrow> n < 2147483648 \<Longrightarrow> wrap32 n = n"
  by (simp add: wrap32_def)

lemma pos_key_to_position:
  assumes "0 \<le> key" and "key < 2147483648"
  shows "pos_key (to_position key) = key"
proof -
  have "0 \<le> key div 256 * 256" and "key div 256 * 256 \<le> key"
    using assms(1) by simp_all
  with assms(2) have "wrap32 (key div 256 * 256) = key div 256 * 256"
    by (intro wrap32_id) simp_all
  moreover have "key div 256 * 256 + key mod 256 = key" by simp
  ultimately show ?thesis
    using assms
    by (simp add: pos_key_def to_position_def to_position_key_def get_x_def get_y_def wrap32_id)
qed

subsection \<open>Well-formed boards\<close>

lemma valid_keys_distinct: "distinct valid_keys"
  by code_simp

lemma valid_keys_range: "list_all (\<lambda>k. 0 \<le> k \<and> k < 2147483648) valid_keys"
  by code_simp

lemma wf_board_distinct: "wf_board b \<Longrightarrow> distinct (map fst b)"
  by (simp add: wf_board_def valid_keys_distinct)

lemma wf_board_range:
  "wf_board b \<Longrightarrow> map_of b k = Some c \<Longrightarrow> 0 \<le> k \<and> k < 2147483648"
proof -
  assume wf: "wf_board b" and "map_of b k = Some c"
  then have "k \<in> set (map fst b)" by (metis map_of_eq_None_iff option.distinct(1) set_map)
  with wf valid_keys_range show ?thesis by (simp add: wf_board_def list_all_iff)
qed

lemma wf_board_place: "wf_board b \<Longrightarrow> wf_board (place b x y pt pc)"
  by (simp add: wf_board_def place_def map_fst_set_piece)

lemma wf_board_Board: "wf_board Board"
  by (simp add: wf_board_def valid_keys_def)

lemma wf_board_move_piece: "wf_board b \<Longrightarrow> wf_board (snd (move_piece b start goal))"
  by (simp add: wf_board_def map_fst_move_piece)

text \<open>Consistency of the cells holds on the fresh board and is kept by \<open>move_piece\<close> and
  by every \<open>set_piece\<close> that places a piece with a colour (or clears a cell).\<close>

lemma cells_consistent_Board: "cells_consistent Board"
  by code_simp

lemma cells_consistent_update_cell:
  "cells_consistent b \<Longrightarrow> (\<And>c. (piece (f c) = none) = (piece_color (f c) = absent))
     \<Longrightarrow> cells_consistent (update_cell b key f)"
  by (induction b) (auto simp: cells_consistent_def update_cell_def split: if_splits)

lemma cells_consistent_set_piece:
  "cells_consistent b \<Longrightarrow> (pt = none) = (pc = absent)
     \<Longrightarrow> cells_consistent (snd (set_piece b pos pt pc))"
  by (simp add: set_piece_def Let_def cells_consistent_update_cell cell_set_piece_eq)

lemma cells_consistent_move_piece:
  assumes "cells_consistent b"
  shows "cells_consistent (snd (move_piece b start goal))"
proof (cases "map_of b (pos_key start)")
  case None
  then show ?thesis using assms by (simp add: move_piece_def Let_def is_valid_position_def)
next
  case (Some c)
  then have "(pos_key start, c) \<in> set b" by (rule map_of_SomeD)
  with assms have c: "(piece c = none) = (piece_color c = absent)"
    by (auto simp: cells_consistent_def list_all_iff)
  have "cells_consistent (update_cell b (pos_key start) remove_piece)"
    using assms by (rule cells_consistent_update_cell) (simp add: remove_piece_def)
  from cells_consistent_set_piece [OF this c] Some assms show ?thesis
    by (simp add: move_piece_def Let_def)
qed

subsection \<open>Raw moves and attack detection\<close>

lemma get_piece_keys_fold:
  "fold (\<lambda>(key, cell) l. if piece_color cell = pc then key # l else l) b acc
     = rev (map fst (filter (\<lambda>(key, cell). piece_color cell = pc) b)) @ acc"
  by (induction b arbitrary: acc) (auto split: prod.splits)

lemma get_piece_keys_eq:
  "get_piece_keys b pc = rev (map fst (filter (\<lambda>(key, cell). piece_color cell = pc) b))"
  by (simp add: get_piece_keys_def get_piece_keys_fold)

lemma set_get_piece_keys:
  "distinct (map fst b) \<Longrightarrow>
     (k \<in> set (get_piece_keys b pc)) = (\<exists>c. map_of b k = Some c \<and> piece_color c = pc)"
  by (auto simp: get_piece_keys_eq image_iff)

lemma get_piece_keys_subset: "set (get_piece_keys b pc) \<subseteq> set (map fst b)"
  by (auto simp: get_piece_keys_eq)

lemma find_king_key_total:
  "\<forall>k \<in> set ks. map_of ib k \<noteq> None \<Longrightarrow> \<exists>kk. find_king_key ib ks = Inr kk"
  by (induction ks) (auto split: option.splits)

lemma in_keys_lookup: "k \<in> fst ` set ib \<Longrightarrow> \<exists>c. map_of ib k = Some c"
  by (cases "map_of ib k") (auto simp: map_of_eq_None_iff)

lemma gather_moves_ok:
  assumes "map_of ib key = Some cell" and "set (map fst bm) \<subseteq> set (map fst ib)"
  shows "\<exists>kk. gather_moves bm ib key = Inr (cell, candidate_moves ib key cell, kk) \<and>
              find_king_key ib (get_piece_keys bm (piece_color cell)) = Inr kk"
proof -
  have "\<forall>k \<in> set (get_piece_keys bm (piece_color cell)). map_of ib k \<noteq> None"
  proof
    fix k assume "k \<in> set (get_piece_keys bm (piece_color cell))"
    with get_piece_keys_subset [of bm "piece_color cell"] assms(2)
    have "k \<in> fst ` set ib" by auto
    then show "map_of ib k \<noteq> None" using in_keys_lookup by fastforce
  qed
  then obtain kk where "find_king_key ib (get_piece_keys bm (piece_color cell)) = Inr kk"
    using find_king_key_total by blast
  with assms(1) show ?thesis by (simp add: gather_moves_def)
qed

lemma get_valid_moves_skip_ok:
  assumes "map_of ib key = Some cell" and "set (map fst bm) \<subseteq> set (map fst ib)"
  shows "get_valid_moves_skip bm ib key = Inr (candidate_moves ib key cell)"
  using gather_moves_ok [OF assms] by (auto simp: get_valid_moves_skip_def)

lemma collect_moves_ok:
  "\<forall>k \<in> set ks. gen k = Inr (g k) \<Longrightarrow>
     collect_moves gen ks acc = Inr (acc @ concat (map g ks))"
  by (induction ks arbitrary: acc) auto

lemma get_all_piece_move_keys_skip_ok:
  assumes "set (map fst bm) \<subseteq> set (map fst ib)"
  shows "get_all_piece_move_keys_skip bm ib pc
           = Inr (concat (map (moves_at ib) (get_piece_keys ib pc)))"
proof -
  have "\<forall>k \<in> set (get_piece_keys ib pc). get_valid_moves_skip bm ib k = Inr (moves_at ib k)"
  proof
    fix k assume "k \<in> set (get_piece_keys ib pc)"
    then have "map_of ib k \<noteq> None"
      using get_piece_keys_subset [of ib pc] in_keys_lookup [of k ib] by auto
    then obtain c where c: "map_of ib k = Some c" by auto
    from get_valid_moves_skip_ok [OF c assms] c
    show "get_valid_moves_skip bm ib k = Inr (moves_at ib k)"
      by (simp add: moves_at_def)
  qed
  from collect_moves_ok [OF this, of "[]"] show ?thesis
    by (simp add: get_all_piece_move_keys_skip_def)
qed

lemma can_be_captured_ok:
  assumes "map_of ib key = Some c" and "set (map fst bm) \<subseteq> set (map fst ib)"
  shows "can_be_captured bm ib key = Inr (attacked ib (get_opposite_color c) key)"
  using assms by (simp add: can_be_captured_def get_all_piece_move_keys_skip_ok attacked_def)

lemma candidate_moves_none: "piece cell = none \<Longrightarrow> candidate_moves ib key cell = []"
  by (simp add: candidate_moves_def)

lemma not_attacked_by_absent:
  assumes "distinct (map fst ib)" and "cells_consistent ib"
  shows "\<not> attacked ib absent key"
proof
  assume "attacked ib absent key"
  then obtain k where k: "k \<in> set (get_piece_keys ib absent)" and m: "key \<in> set (moves_at ib k)"
    by (auto simp: attacked_def)
  from k assms(1) obtain c where c: "map_of ib k = Some c" "piece_color c = absent"
    by (auto simp: set_get_piece_keys)
  from c(1) have "(k, c) \<in> set ib" by (rule map_of_SomeD)
  with assms(2) c(2) have "piece c = none"
    by (auto simp: cells_consistent_def list_all_iff)
  with c(1) m show False by (simp add: moves_at_def candidate_moves_none)
qed

subsection \<open>Static evaluation\<close>

lemma score_pieces_ok:
  assumes "set (map fst bm) \<subseteq> set (map fst ib)"
  shows "\<forall>k \<in> set ks. map_of ib k \<noteq> None \<Longrightarrow>
     score_pieces bm ib pc ks score = Inr (score + sum_list (map (contribution ib pc) ks))"
proof (induction ks arbitrary: score)
  case Nil
  then show ?case by simp
next
  case (Cons k ks)
  then obtain c where c: "map_of ib k = Some c" by auto
  from Cons have IH: "\<And>s. score_pieces bm ib pc ks s = Inr (s + sum_list (map (contribution ib pc) ks))"
    by simp
  have ck: "contribution ib pc k =
      (if piece c = king then
         (if attacked ib (get_opposite_color c) k then (if pc = white then - 100 else 100) else 0)
       else (if pc = white then piece_values (piece c) else - piece_values (piece c)))"
    using c by (simp add: contribution_def)
  show ?case
    using c can_be_captured_ok [OF c assms]
    by (simp add: IH ck)
qed

lemma evaluate_ok:
  assumes "set (map fst bm) \<subseteq> set (map fst ib)"
  shows "evaluate bm ib =
     Inr (sum_list (map (contribution ib white) (get_piece_keys ib white))
        + sum_list (map (contribution ib black) (get_piece_keys ib black)))"
proof -
  have v: "\<forall>k \<in> set (get_piece_keys ib pc). map_of ib k \<noteq> None" for pc
    using get_piece_keys_subset [of ib pc] in_keys_lookup [of _ ib] by fastforce
  show ?thesis
    by (simp add: evaluate_def Let_def score_pieces_ok [OF assms v])
qed

lemma sum_list_piece_keys:
  fixes f :: "int \<Rightarrow> int"
  shows "sum_list (map f (get_piece_keys b pc))
     = sum_list (map (\<lambda>(key, cell). if piece_color cell = pc then f key else 0) b)"
proof -
  have "sum_list (map f (map fst (filter (\<lambda>(key, cell). piece_color cell = pc) b)))
          = sum_list (map (\<lambda>(key, cell). if piece_color cell = pc then f key else 0) b)"
    by (induction b) auto
  moreover have "sum_list (map f (rev xs)) = sum_list (map f xs)" for xs :: "int list"
    by (simp add: rev_map [symmetric] sum_list_rev del: rev_map)
  ultimately show ?thesis
    unfolding get_piece_keys_eq by simp
qed

lemma in_check_attacked:
  "map_of b key = Some c \<Longrightarrow> in_check b key = attacked b (get_opposite_color c) key"
  using can_be_captured_ok [of b key c b] by (simp add: in_check_def)

lemma sum_list_split:
  "sum_list (map (\<lambda>(k, c). A k c) xs) + sum_list (map (\<lambda>(k, c). B k c) xs)
     = sum_list (map (\<lambda>(k, c). (A k c + B k c :: int)) xs)"
  by (induction xs) auto

lemma evaluate_is_by_cells:
  assumes "distinct (map fst b)"
  shows "evaluate b b = Inr (evaluate_by_cells b)"
proof -
  have "(if piece_color c = white then contribution b white k else 0)
        + (if piece_color c = black then contribution b black k else 0) = piece_score b k c"
    if "(k, c) \<in> set b" for k c
  proof -
    from that assms have m: "map_of b k = Some c" by simp
    show ?thesis
      by (cases "piece_color c") (simp_all add: contribution_def piece_score_def m in_check_attacked [OF m])
  qed
  then have "map (\<lambda>(k, c). (if piece_color c = white then contribution b white k else 0)
        + (if piece_color c = black then contribution b black k else 0)) b
        = map (\<lambda>(k, c). piece_score b k c) b"
    by (intro map_cong) auto
  moreover have "sum_list (map (\<lambda>(k, c). if piece_color c = white then contribution b white k else 0) b)
           + sum_list (map (\<lambda>(k, c). if piece_color c = black then contribution b black k else 0) b)
           = sum_list (map (\<lambda>(k, c). (if piece_color c = white then contribution b white k else 0)
        + (if piece_color c = black then contribution b black k else 0)) b)"
    by (rule sum_list_split)
  ultimately have "sum_list (map (\<lambda>(k, c). if piece_color c = white then contribution b white k else 0) b)
           + sum_list (map (\<lambda>(k, c). if piece_color c = black then contribution b black k else 0) b)
           = evaluate_by_cells b"
    by (simp only: evaluate_by_cells_def)
  then show ?thesis
    by (simp add: evaluate_ok sum_list_piece_keys)
qed

subsection \<open>Exchanging the colours\<close>

lemma opposite_color_inj: "(opposite_color a = opposite_color b) = (a = b)"
  by (cases a; cases b) simp_all

lemma opposite_color_absent: "(opposite_color a = absent) = (a = absent)"
  by (cases a) simp_all

lemma map_fst_swap_colors: "map fst (swap_colors b) = map fst b"
  by (induction b) (auto simp: swap_colors_def)

lemma map_of_swap_colors: "map_of (swap_colors b) k = map_option swap_cell (map_of b k)"
  by (induction b) (auto simp: swap_colors_def)

lemma has_piece_swap: "has_piece (swap_cell c) = has_piece c"
  by (simp add: has_piece_def swap_cell_def)

lemma piece_swap: "piece (swap_cell c) = piece c"
  by (simp add: swap_cell_def)

lemma piece_color_swap: "piece_color (swap_cell c) = opposite_color (piece_color c)"
  by (simp add: swap_cell_def)

lemma same_color_swap:
  "has_piece_of_same_color (swap_cell c) (swap_cell cell) = has_piece_of_same_color c cell"
  by (simp add: has_piece_of_same_color_def Let_def swap_cell_def opposite_color_inj
      opposite_color_absent)

lemma opposite_color_swap:
  "has_piece_of_opposite_color (swap_cell c) (swap_cell cell) = has_piece_of_opposite_color c cell"
  by (simp add: has_piece_of_opposite_color_def Let_def swap_cell_def opposite_color_inj
      opposite_color_absent)

lemma add_if_valid_swap:
  "add_if_valid (swap_colors b) l key (swap_cell cell) can_take = add_if_valid b l key cell can_take"
  by (simp add: add_if_valid_def map_of_swap_colors has_piece_swap opposite_color_swap
      split: option.splits)

lemma slide_swap:
  "slide (swap_colors b) (swap_cell cell) fn pos l = slide b cell fn pos l"
proof (induction b cell fn pos l rule: slide.induct)
  case (1 in_board cell fn current_pos l)
  show ?case
  proof (cases "map_of in_board current_pos")
    case None
    then show ?thesis
      by (subst slide.simps, subst (2) slide.simps) (simp add: map_of_swap_colors)
  next
    case (Some c)
    show ?thesis
    proof (cases "has_piece c")
      case True
      with Some show ?thesis
        by (subst slide.simps, subst (2) slide.simps)
           (simp add: map_of_swap_colors has_piece_swap same_color_swap)
    next
      case False
      with Some 1 have "slide (swap_colors in_board) (swap_cell cell) fn (call fn current_pos) (current_pos # l)
          = slide in_board cell fn (call fn current_pos) (current_pos # l)"
        by simp
      with Some False show ?thesis
        by (subst slide.simps, subst (2) slide.simps)
           (simp add: map_of_swap_colors has_piece_swap)
    qed
  qed
qed

lemma add_valid_moves_swap:
  "add_valid_moves (swap_colors b) l key fns (swap_cell cell) = add_valid_moves b l key fns cell"
  by (simp add: add_valid_moves_def slide_swap)

lemma candidate_moves_swap:
  "piece cell \<noteq> pawn \<Longrightarrow>
     candidate_moves (swap_colors b) key (swap_cell cell) = candidate_moves b key cell"
  by (cases "piece cell")
     (simp_all add: candidate_moves_def piece_swap add_bishop_moves_def add_rook_moves_def
        add_queen_moves_def add_knight_moves_def add_king_moves_def add_valid_moves_swap
        add_if_valid_swap)

lemma get_piece_keys_swap:
  "get_piece_keys (swap_colors b) (opposite_color pc) = get_piece_keys b pc"
  unfolding get_piece_keys_eq
  by (induction b) (auto simp: swap_colors_def piece_color_swap opposite_color_inj)

subsection \<open>Candidate moves and the legality filter\<close>

lemma add_if_valid_mem:
  "k \<in> set (add_if_valid ib l t cell can_take) \<Longrightarrow> k \<notin> set l \<Longrightarrow>
     k = t \<and> (\<exists>c. map_of ib t = Some c \<and> (has_piece c \<longrightarrow> has_piece_of_opposite_color c cell \<and> can_take))"
  by (auto simp: add_if_valid_def split: option.splits if_splits)

lemma add_pawn_take_mem:
  "k \<in> set (add_pawn_take_if_valid ib l t cell) \<Longrightarrow> k \<notin> set l \<Longrightarrow>
     k = t \<and> (\<exists>c. map_of ib t = Some c \<and> has_piece_of_opposite_color c cell)"
  by (auto simp: add_pawn_take_if_valid_def split: option.splits if_splits)

text \<open>Where a member of the pawn's list comes from.\<close>

lemma pawn_moves_with_mem:
  assumes "k \<in> set (pawn_moves_with fn_move fn_take_1 fn_take_2 ib [] key cell)"
  shows "(k = fn_move key \<and> (\<exists>c. map_of ib k = Some c \<and> \<not> has_piece c))
       \<or> (k = fn_move (fn_move key) \<and> is_initial_pawn_cell key cell
            \<and> (\<exists>c. map_of ib (fn_move key) = Some c \<and> \<not> has_piece c)
            \<and> (\<exists>c. map_of ib k = Some c \<and> \<not> has_piece c))
       \<or> (k = fn_take_1 key \<and> (\<exists>c. map_of ib k = Some c \<and> has_piece_of_opposite_color c cell))
       \<or> (k = fn_take_2 key \<and> (\<exists>c. map_of ib k = Some c \<and> has_piece_of_opposite_color c cell))"
proof -
  define l1 where "l1 = (case map_of ib (fn_move key) of
                  None \<Rightarrow> []
                | Some c \<Rightarrow>
                    (let l' = add_if_valid ib [] (fn_move key) cell False in
                     if \<not> has_piece c \<and> is_initial_pawn_cell key cell
                     then add_if_valid ib l' (fn_move (fn_move key)) cell False
                     else l'))"
  define l2 where "l2 = add_pawn_take_if_valid ib l1 (fn_take_1 key) cell"
  have k: "k \<in> set (add_pawn_take_if_valid ib l2 (fn_take_2 key) cell)"
    using assms by (simp add: pawn_moves_with_def Let_def l1_def l2_def)
  have in_l1: "k \<in> set l1 \<Longrightarrow>
      (k = fn_move key \<and> (\<exists>c. map_of ib k = Some c \<and> \<not> has_piece c))
       \<or> (k = fn_move (fn_move key) \<and> is_initial_pawn_cell key cell
            \<and> (\<exists>c. map_of ib (fn_move key) = Some c \<and> \<not> has_piece c)
            \<and> (\<exists>c. map_of ib k = Some c \<and> \<not> has_piece c))"
    unfolding l1_def
    by (auto simp: Let_def add_if_valid_def split: option.splits if_splits)
  show ?thesis
  proof (cases "k \<in> set l2")
    case False
    with k add_pawn_take_mem [of k ib l2 "fn_take_2 key" cell] show ?thesis by blast
  next
    case True
    show ?thesis
    proof (cases "k \<in> set l1")
      case False
      with True add_pawn_take_mem [of k ib l1 "fn_take_1 key" cell] show ?thesis
        unfolding l2_def by blast
    next
      case True
      with in_l1 show ?thesis by blast
    qed
  qed
qed



lemma filter_moves_mem:
  "filter_moves bm cell key king_key l acc = Inr r \<Longrightarrow> k \<in> set r \<Longrightarrow> k \<notin> set acc \<Longrightarrow>
     k \<in> set l \<and>
     can_be_captured bm
       (snd (move_piece (copy_board_map bm) (to_position key) (to_position k)))
       (if piece cell = king then k else king_key) = Inr False"
proof (induction l arbitrary: acc)
  case Nil
  then show ?case by simp
next
  case (Cons a l)
  show ?case
  proof (cases "can_be_captured bm
       (snd (move_piece (copy_board_map bm) (to_position key) (to_position a)))
       (if piece cell = king then a else king_key)")
    case (Inl e)
    with Cons.prems show ?thesis by (simp add: Let_def)
  next
    case (Inr captured)
    with Cons.prems(1) have r: "filter_moves bm cell key king_key l
               (if \<not> captured then a # acc else acc) = Inr r"
      by (simp add: Let_def)
    show ?thesis
    proof (cases "k \<in> set (if \<not> captured then a # acc else acc)")
      case True
      with Cons.prems(3) have "k = a" "\<not> captured" by (auto split: if_splits)
      with Inr show ?thesis by (auto split: if_splits)
    next
      case False
      from Cons.IH [OF r Cons.prems(2) False] show ?thesis by simp
    qed
  qed
qed


lemma king_keys_mem:
  "distinct (map fst b) \<Longrightarrow>
     (k \<in> set (king_keys b pc)) = (\<exists>c. map_of b k = Some c \<and> piece c = king \<and> piece_color c = pc)"
  by (auto simp: king_keys_def image_iff)

lemma find_king_key_result:
  "find_king_key ib ks = Inr kk \<Longrightarrow>
     (kk \<in> set ks \<and> (\<exists>c. map_of ib kk = Some c \<and> piece c = king))
     \<or> (kk = - 1 \<and> (\<forall>k \<in> set ks. \<forall>c. map_of ib k = Some c \<longrightarrow> piece c \<noteq> king))"
  by (induction ks) (auto split: option.splits if_splits)

lemma find_unique_king:
  assumes d: "distinct (map fst b)" and u: "king_keys b pc = [kk0]" and nn: "kk0 \<noteq> - 1"
    and f: "find_king_key b (get_piece_keys b pc) = Inr kk"
  shows "kk = kk0"
proof -
  from u have "kk0 \<in> set (king_keys b pc)" by simp
  then obtain c0 where c0: "map_of b kk0 = Some c0" "piece c0 = king" "piece_color c0 = pc"
    using d by (auto simp: king_keys_mem)
  then have in0: "kk0 \<in> set (get_piece_keys b pc)"
    using d by (auto simp: set_get_piece_keys)
  from find_king_key_result [OF f] show ?thesis
  proof
    assume a: "kk \<in> set (get_piece_keys b pc) \<and> (\<exists>c. map_of b kk = Some c \<and> piece c = king)"
    then obtain c where c: "map_of b kk = Some c" "piece c = king" by auto
    from a d obtain c' where "map_of b kk = Some c'" "piece_color c' = pc"
      by (auto simp: set_get_piece_keys)
    with c have "piece_color c = pc" by simp
    with c d have "kk \<in> set (king_keys b pc)"
      by (simp add: king_keys_mem)
    with u show ?thesis by simp
  next
    assume "kk = - 1 \<and> (\<forall>k \<in> set (get_piece_keys b pc). \<forall>c. map_of b k = Some c \<longrightarrow> piece c \<noteq> king)"
    with in0 c0 show ?thesis by auto
  qed
qed

lemma same_color_has_piece: "has_piece_of_same_color c cell \<Longrightarrow> has_piece c"
  by (simp add: has_piece_of_same_color_def has_piece_def Let_def)

lemma opposite_not_same: "has_piece_of_opposite_color c cell \<Longrightarrow> \<not> has_piece_of_same_color c cell"
  by (simp add: has_piece_of_opposite_color_def has_piece_of_same_color_def Let_def)

lemma slide_landing:
  "set l \<subseteq> landing ib cell \<Longrightarrow> set (slide ib cell fn pos l) \<subseteq> landing ib cell"
proof (induction ib cell fn pos l rule: slide.induct)
  case (1 in_board cell fn current_pos l)
  show ?case
  proof (cases "map_of in_board current_pos")
    case None
    with 1 show ?thesis by (subst slide.simps) simp
  next
    case (Some c)
    show ?thesis
    proof (cases "has_piece c")
      case True
      with Some 1(2) show ?thesis
        by (subst slide.simps) (auto simp: landing_def)
    next
      case False
      then have "current_pos \<in> landing in_board cell"
        using Some same_color_has_piece by (auto simp: landing_def)
      with 1(2) have "set (current_pos # l) \<subseteq> landing in_board cell" by simp
      with 1(1) [OF Some False] Some False show ?thesis
        by (subst slide.simps) simp
    qed
  qed
qed

lemma add_valid_moves_landing:
  "set l \<subseteq> landing ib cell \<Longrightarrow> set (add_valid_moves ib l key fns cell) \<subseteq> landing ib cell"
  unfolding add_valid_moves_def
  by (induction fns arbitrary: l) (simp_all add: slide_landing)

lemma add_if_valid_landing:
  "set l \<subseteq> landing ib cell \<Longrightarrow> set (add_if_valid ib l t cell can_take) \<subseteq> landing ib cell"
  using same_color_has_piece opposite_not_same
  by (auto simp: add_if_valid_def landing_def split: option.splits if_splits)

lemma fold_add_if_valid_landing:
  "set l \<subseteq> landing ib cell \<Longrightarrow>
     set (fold (\<lambda>t l. add_if_valid ib l t cell True) ts l) \<subseteq> landing ib cell"
  by (induction ts arbitrary: l) (simp_all add: add_if_valid_landing)

lemma pawn_moves_with_landing:
  "set (pawn_moves_with f g h ib [] key cell) \<subseteq> landing ib cell"
proof
  fix k assume "k \<in> set (pawn_moves_with f g h ib [] key cell)"
  from pawn_moves_with_mem [OF this] show "k \<in> landing ib cell"
    using same_color_has_piece opposite_not_same by (auto simp: landing_def)
qed

lemma candidate_moves_landing:
  "set (candidate_moves ib key cell) \<subseteq> landing ib cell"
proof (cases "piece cell")
  case pawn
  then show ?thesis
    using pawn_moves_with_landing
    by (cases "piece_color cell") (simp_all add: candidate_moves_def add_pawn_moves_def)
qed (simp_all add: candidate_moves_def add_bishop_moves_def add_rook_moves_def
      add_queen_moves_def add_knight_moves_def add_king_moves_def
      add_valid_moves_landing fold_add_if_valid_landing)

lemma distinct_singleton: "distinct xs \<Longrightarrow> set xs = {x} \<Longrightarrow> xs = [x]"
  by (cases xs) (auto simp: subset_singleton_iff dest!: subset_singletonD)

lemma king_keys_distinct: "distinct (map fst b) \<Longrightarrow> distinct (king_keys b pc)"
  by (simp add: king_keys_def distinct_map_filter)

subsection \<open>Exchanging the colours with pawns on the board\<close>

lemma pawn_moves_miss_king:
  assumes "piece c = pawn" and "map_of ib key = Some ck" and "piece ck = king"
    and "key \<notin> set (pawn_capture_squares k)"
  shows "key \<notin> set (candidate_moves ib k c)"
proof
  assume "key \<in> set (candidate_moves ib k c)"
  with assms(1) have m: "key \<in> set (add_pawn_moves ib [] k c)"
    by (simp add: candidate_moves_def)
  have hp: "has_piece ck" using assms(3) by (simp add: has_piece_def)
  show False
  proof (cases "piece_color c")
    case absent
    with m show False by (simp add: add_pawn_moves_def)
  next
    case white
    with m have "key \<in> set (pawn_moves_with move_vertically_up move_horizontally_top_left
                   move_horizontally_top_right ib [] k c)"
      by (simp add: add_pawn_moves_def)
    from pawn_moves_with_mem [OF this] assms(2,4) hp show False
      by (auto simp: pawn_capture_squares_def)
  next
    case black
    with m have "key \<in> set (pawn_moves_with move_vertically_down move_horizontally_bottom_left
                   move_horizontally_bottom_right ib [] k c)"
      by (simp add: add_pawn_moves_def)
    from pawn_moves_with_mem [OF this] assms(2,4) hp show False
      by (auto simp: pawn_capture_squares_def)
  qed
qed

lemma king_off_capture_squares:
  assumes "kings_off_pawn_captures b" and "map_of b k = Some c" and "piece c = pawn"
    and "map_of b key = Some ck" and "piece ck = king"
  shows "key \<notin> set (pawn_capture_squares k)"
proof
  assume in_sq: "key \<in> set (pawn_capture_squares k)"
  from assms(2) have "(k, c) \<in> set b" by (rule map_of_SomeD)
  with assms(1,3) have "list_all (\<lambda>t. case map_of b t of None \<Rightarrow> True | Some c \<Rightarrow> piece c \<noteq> king)
          (pawn_capture_squares k)"
    by (auto simp: kings_off_pawn_captures_def list_all_iff)
  with in_sq have "case map_of b key of None \<Rightarrow> True | Some c \<Rightarrow> piece c \<noteq> king"
    by (simp add: list_all_iff)
  with assms(4,5) show False by simp
qed

lemma moves_at_swap_king:
  assumes "kings_off_pawn_captures b" and "map_of b key = Some ck" and "piece ck = king"
  shows "(key \<in> set (moves_at (swap_colors b) k)) = (key \<in> set (moves_at b k))"
proof (cases "map_of b k")
  case None
  then show ?thesis by (simp add: moves_at_def map_of_swap_colors)
next
  case (Some c)
  show ?thesis
  proof (cases "piece c = pawn")
    case False
    with Some show ?thesis
      by (simp add: moves_at_def map_of_swap_colors candidate_moves_swap)
  next
    case True
    from king_off_capture_squares [OF assms(1) Some True assms(2,3)]
    have off: "key \<notin> set (pawn_capture_squares k)" .
    have "key \<notin> set (candidate_moves b k c)"
      using True assms(2,3) off by (rule pawn_moves_miss_king)
    moreover have "key \<notin> set (candidate_moves (swap_colors b) k (swap_cell c))"
    proof (rule pawn_moves_miss_king [OF _ _ _ off])
      show "piece (swap_cell c) = pawn" using True by (simp add: piece_swap)
      show "map_of (swap_colors b) key = Some (swap_cell ck)"
        using assms(2) by (simp add: map_of_swap_colors)
      show "piece (swap_cell ck) = king" using assms(3) by (simp add: piece_swap)
    qed
    ultimately show ?thesis
      using Some by (simp add: moves_at_def map_of_swap_colors)
  qed
qed

lemma attacked_swap_king:
  assumes "kings_off_pawn_captures b" and "map_of b key = Some ck" and "piece ck = king"
  shows "attacked (swap_colors b) (opposite_color pc) key = attacked b pc key"
  by (simp add: attacked_def get_piece_keys_swap moves_at_swap_king [OF assms])

lemma in_check_swap_king:
  assumes "kings_off_pawn_captures b" and "map_of b key = Some c" and "piece c = king"
  shows "in_check (swap_colors b) key = in_check b key"
proof -
  have "map_of (swap_colors b) key = Some (swap_cell c)"
    using assms(2) by (simp add: map_of_swap_colors)
  from in_check_attacked [OF this] in_check_attacked [OF assms(2)]
    attacked_swap_king [OF assms, of "get_opposite_color c"]
  show ?thesis
    by (simp add: get_opposite_color_def piece_color_swap)
qed

lemma piece_score_swap:
  assumes "kings_off_pawn_captures b" and "map_of b key = Some c"
  shows "piece_score (swap_colors b) key (swap_cell c) = - piece_score b key c"
proof (cases "piece c = king")
  case True
  from in_check_swap_king [OF assms True] True show ?thesis
    by (cases "piece_color c") (simp_all add: piece_score_def piece_color_swap piece_swap)
next
  case False
  then show ?thesis
    by (cases "piece_color c") (simp_all add: piece_score_def piece_color_swap piece_swap)
qed

lemma sum_list_swap_colors:
  "sum_list (map (\<lambda>(key, cell). f key cell) (swap_colors xs))
     = sum_list (map (\<lambda>(key, cell). (f key (swap_cell cell) :: int)) xs)"
  by (induction xs) (auto simp: swap_colors_def)

lemma sum_list_negated:
  "sum_list (map (\<lambda>(key, cell). - (f key cell :: int)) xs)
     = - sum_list (map (\<lambda>(key, cell). f key cell) xs)"
  by (induction xs) auto

lemma evaluate_by_cells_swap:
  assumes "kings_off_pawn_captures b" and "distinct (map fst b)"
  shows "evaluate_by_cells (swap_colors b) = - evaluate_by_cells b"
proof -
  have "map (\<lambda>(key, cell). piece_score (swap_colors b) key (swap_cell cell)) b
          = map (\<lambda>(key, cell). - piece_score b key cell) b"
  proof (rule map_cong [OF refl])
    fix x assume mem: "x \<in> set b"
    obtain key cell where x: "x = (key, cell)" by (cases x)
    with mem assms(2) have "map_of b key = Some cell" by simp
    from piece_score_swap [OF assms(1) this] x
    show "(case x of (key, cell) \<Rightarrow> piece_score (swap_colors b) key (swap_cell cell))
            = (case x of (key, cell) \<Rightarrow> - piece_score b key cell)"
      by simp
  qed
  then have "sum_list (map (\<lambda>(key, cell). piece_score (swap_colors b) key (swap_cell cell)) b)
          = - sum_list (map (\<lambda>(key, cell). piece_score b key cell) b)"
    by (simp only: sum_list_negated)
  then show ?thesis
    by (simp only: evaluate_by_cells_def sum_list_swap_colors)
qed

subsection \<open>The loop of the Random AI\<close>

lemma random_move_loop_returns_only_with_a_move:
  assumes "random_move_loop ActiveBoard PieceKeys rand n = Some r"
  shows "\<exists>i. get_valid_moves ActiveBoard ActiveBoard
               (PieceKeys ! (rand i mod length PieceKeys)) False \<noteq> Inr []"
proof (rule random_move_loop.raw_induct
    [where P = "\<lambda>A K rnd m res. \<exists>i. get_valid_moves A A (K ! (rnd i mod length K)) False \<noteq> Inr []",
      OF _ assms])
  fix loop :: "board \<Rightarrow> int list \<Rightarrow> (nat \<Rightarrow> nat) \<Rightarrow> nat \<Rightarrow> (error + Position list) option"
  fix A K rnd m res
  assume IH: "\<And>A K rnd m res. loop A K rnd m = Some res \<Longrightarrow>
                \<exists>i. get_valid_moves A A (K ! (rnd i mod length K)) False \<noteq> Inr []"
  assume step: "(let RandomIndex = rnd m mod length K; RandomPieceKey = K ! RandomIndex
      in case get_valid_moves A A RandomPieceKey False of
           Inl e \<Rightarrow> Some (Inl e)
         | Inr PieceMoves \<Rightarrow>
             if length PieceMoves > 0 then
               (let RandomMoveIndex = rnd (Suc m) mod length PieceMoves;
                    RandomMoveKey = PieceMoves ! RandomMoveIndex
                in Some (Inr [to_position RandomPieceKey, to_position RandomMoveKey]))
             else loop A K rnd (Suc m)) = Some res"
  show "\<exists>i. get_valid_moves A A (K ! (rnd i mod length K)) False \<noteq> Inr []"
  proof (cases "get_valid_moves A A (K ! (rnd m mod length K)) False = Inr []")
    case True
    with step have "loop A K rnd (Suc m) = Some res"
      by (simp add: Let_def)
    then show ?thesis by (rule IH)
  next
    case False
    then show ?thesis by blast
  qed
qed

section \<open>Keys outside the valid-cell set\<close>

text \<open>
  C1.  The claim that no lookup at a key outside the valid-cell set crashes fails for
  the two queries: on the fresh board, at the key of position \<open>(11, 0)\<close>, both
  \<open>get_valid_moves\<close> and \<open>can_be_captured\<close> call a member function through the null
  pointer that \<open>in_board[key]\<close> has just inserted.  The two mutators test
  \<open>is_valid_position\<close> first and leave the board as it is.
\<close>

theorem queries_at_invalid_key_dereference_null:
  "\<not> is_valid_position Board (pos_key \<lparr>pos_x = 11, pos_y = 0\<rparr>) \<and>
   get_valid_moves Board Board (pos_key \<lparr>pos_x = 11, pos_y = 0\<rparr>) False = Inl NullDeref \<and>
   can_be_captured Board Board (pos_key \<lparr>pos_x = 11, pos_y = 0\<rparr>) = Inl NullDeref \<and>
   snd (set_piece Board \<lparr>pos_x = 11, pos_y = 0\<rparr> king white) = Board \<and>
   snd (move_piece Board \<lparr>pos_x = 11, pos_y = 0\<rparr> \<lparr>pos_x = 0, pos_y = 0\<rparr>) = Board"
proof -
  have inv: "\<not> is_valid_position Board (pos_key \<lparr>pos_x = 11, pos_y = 0\<rparr>)"
    by code_simp
  show ?thesis
    using inv by (simp add: get_valid_moves_invalid can_be_captured_invalid
        set_piece_invalid move_piece_invalid)
qed

section \<open>Static evaluation of a board\<close>

text \<open>
  C2.  As stated the claim fails: for a lone white king, which nothing attacks, the
  specification's sum is 100 and \<open>evaluate\<close> returns 0.
\<close>

theorem evaluate_king_value_counterexample:
  "evaluate (place Board 0 0 king white) (place Board 0 0 king white) = Inr 0 \<and>
   evaluate_spec (place Board 0 0 king white) = 100"
  by code_simp

text \<open>
  C2, as the code has it.  On every well-formed board \<open>evaluate\<close> returns the sum over all cells
  of: the piece value for a white piece other than a king, its negation for a black
  one, \<open>-100\<close> for a white king in check, \<open>+100\<close> for a black king in check, and 0 for a
  king not in check (and for a cell of colour \<open>absent\<close>).
\<close>

theorem evaluate_material_and_check:
  assumes "wf_board b"
  shows "evaluate b b = Inr (evaluate_by_cells b)"
  using assms by (intro evaluate_is_by_cells wf_board_distinct)

theorem evaluate_material_and_check_witness:
  "evaluate (place (place (place Board 0 0 king white) 0 3 rook black) 10 0 king black)
            (place (place (place Board 0 0 king white) 0 3 rook black) 10 0 king black)
     = Inr (- 105)"
proof -
  let ?b = "place (place (place Board 0 0 king white) 0 3 rook black) 10 0 king black"
  have wf: "wf_board ?b" by (simp add: wf_board_place wf_board_Board)
  have v: "evaluate_by_cells ?b = - 105" by code_simp
  from evaluate_material_and_check [OF wf] v show ?thesis by simp
qed

section \<open>The legality filter\<close>

text \<open>
  C3.  Let the board be well formed, let it hold exactly one king of the mover's
  colour (white or black), and let \<open>key\<close> be an occupied cell of that colour.  For every
  move \<open>k\<close> that \<open>get_valid_moves\<close> returns for \<open>key\<close>, the board obtained by playing the
  move on a copy again holds exactly one king of that colour, and no piece of the
  opposite colour has that king's key among its candidate moves on the new board
  (\<open>attacked\<close>, which does not go through \<open>can_be_captured\<close>).  Accordingly \<open>can_be_captured\<close>
  returns \<open>false\<close> at that king's key, both when called the way the filter calls it (the
  copy as \<open>in_board\<close>) and when the copy is the board itself.
\<close>

theorem filtered_moves_keep_king_safe:
  assumes wf: "wf_board b"
    and cell: "map_of b key = Some cell"
    and occ: "has_piece cell"
    and col: "piece_color cell \<noteq> absent"
    and king: "king_keys b (piece_color cell) = [kk0]"
    and moves: "get_valid_moves b b key False = Inr moves"
    and k: "k \<in> set moves"
  shows "\<exists>kk. king_keys (snd (move_piece (copy_board_map b) (to_position key) (to_position k)))
                 (piece_color cell) = [kk]
            \<and> \<not> attacked (snd (move_piece (copy_board_map b) (to_position key) (to_position k)))
                   (opposite_color (piece_color cell)) kk
            \<and> can_be_captured b
                 (snd (move_piece (copy_board_map b) (to_position key) (to_position k))) kk
                = Inr False
            \<and> can_be_captured
                 (snd (move_piece (copy_board_map b) (to_position key) (to_position k)))
                 (snd (move_piece (copy_board_map b) (to_position key) (to_position k))) kk
                = Inr False"
proof -
  define b' where "b' = snd (move_piece (copy_board_map b) (to_position key) (to_position k))"
  define fk where "fk = (if piece cell = king then k else kk0)"
  let ?col = "piece_color cell"
  have d: "distinct (map fst b)" using wf by (rule wf_board_distinct)
  have keys': "map fst b' = map fst b"
    by (simp add: b'_def map_fst_move_piece copy_board_map_id)
  then have d': "distinct (map fst b')" using d by simp
  from king have "kk0 \<in> set (king_keys b ?col)" by simp
  then obtain c0 where c0: "map_of b kk0 = Some c0" "piece c0 = king" "piece_color c0 = ?col"
    using d by (auto simp: king_keys_mem)
  have only: "x = kk0" if "map_of b x = Some c" "piece c = king" "piece_color c = ?col" for x c
  proof -
    from that d have "x \<in> set (king_keys b ?col)" by (auto simp: king_keys_mem)
    with king show ?thesis by simp
  qed
  from wf_board_range [OF wf c0(1)] have nn: "kk0 \<noteq> - 1" by simp
  from gather_moves_ok [OF cell, of b] obtain kk
    where g: "gather_moves b b key = Inr (cell, candidate_moves b key cell, kk)"
      and f: "find_king_key b (get_piece_keys b ?col) = Inr kk"
    by auto
  from find_unique_king [OF d king nn f] have kk: "kk = kk0" .
  from moves g kk nn have "filter_moves b cell key kk0 (candidate_moves b key cell) [] = Inr moves"
    by (simp add: get_valid_moves_def)
  from filter_moves_mem [OF this k]
  have cand: "k \<in> set (candidate_moves b key cell)"
    and safe: "can_be_captured b b' fk = Inr False"
    by (simp_all add: b'_def fk_def)
  from cand candidate_moves_landing [of b key cell]
  obtain ck where ck: "map_of b k = Some ck" "\<not> has_piece_of_same_color ck cell"
    by (auto simp: landing_def)
  have m': "map_of b' = (map_of b)(key \<mapsto> empty_cell, k \<mapsto> cell)"
    using map_of_move_piece [of b "to_position key" cell "to_position k"] cell ck(1)
      wf_board_range [OF wf cell] wf_board_range [OF wf ck(1)]
    by (simp add: b'_def copy_board_map_id pos_key_to_position is_valid_position_def)
  have kings': "set (king_keys b' ?col) = {fk}"
  proof (cases "piece cell = king")
    case True
    with cell only have key0: "key = kk0" by simp
    have "(\<exists>c. map_of b' x = Some c \<and> piece c = king \<and> piece_color c = ?col) = (x = k)" for x
    proof (cases "x = k")
      case xk: True
      with True show ?thesis by (simp add: m')
    next
      case xk: False
      show ?thesis
      proof (cases "x = key")
        case True
        with xk show ?thesis by (simp add: m' empty_cell_def)
      next
        case False
        with xk key0 only [of x] show ?thesis by (auto simp: m')
      qed
    qed
    with True show ?thesis by (auto simp: king_keys_mem [OF d'] fk_def)
  next
    case False
    with cell c0 have ne1: "kk0 \<noteq> key" by auto
    from c0 col have "has_piece_of_same_color c0 cell"
      by (simp add: has_piece_of_same_color_def Let_def)
    with ck c0(1) have ne2: "kk0 \<noteq> k" by auto
    have "(\<exists>c. map_of b' x = Some c \<and> piece c = king \<and> piece_color c = ?col) = (x = kk0)" for x
    proof (cases "x = k")
      case True
      with False ne2 show ?thesis by (simp add: m')
    next
      case xk: False
      show ?thesis
      proof (cases "x = key")
        case True
        with xk ne1 show ?thesis by (simp add: m' empty_cell_def)
      next
        case False
        with xk only [of x] c0 show ?thesis by (auto simp: m')
      qed
    qed
    with False show ?thesis by (auto simp: king_keys_mem [OF d'] fk_def)
  qed
  have one: "king_keys b' ?col = [fk]"
    using king_keys_distinct [OF d'] kings' by (rule distinct_singleton)
  from kings' have "fk \<in> set (king_keys b' ?col)" by simp
  then obtain cf where cf: "map_of b' fk = Some cf" "piece_color cf = ?col"
    by (auto simp: king_keys_mem [OF d'])
  have opp: "get_opposite_color cf = opposite_color ?col"
    using cf(2) by (simp add: get_opposite_color_def)
  have c1: "can_be_captured b b' fk = Inr (attacked b' (opposite_color ?col) fk)"
    using can_be_captured_ok [OF cf(1), of b] keys' opp by simp
  have c2: "can_be_captured b' b' fk = Inr (attacked b' (opposite_color ?col) fk)"
    using can_be_captured_ok [OF cf(1), of b'] opp by simp
  from safe c1 have free: "\<not> attacked b' (opposite_color ?col) fk" by simp
  with c2 have "can_be_captured b' b' fk = Inr False" by simp
  with safe one free show ?thesis unfolding b'_def [symmetric] by simp
qed

theorem filtered_moves_keep_king_safe_witness:
  "candidate_moves (place (place Board 0 0 king white) 0 3 rook black) 0
     \<lparr>piece = king, piece_color = white\<rparr> = [513, 258, 256, 257, 1] \<and>
   get_valid_moves (place (place Board 0 0 king white) 0 3 rook black)
     (place (place Board 0 0 king white) 0 3 rook black) 0 False = Inr [257, 256, 258, 513] \<and>
   attacked (snd (move_piece (copy_board_map (place (place Board 0 0 king white) 0 3 rook black))
                     (to_position 0) (to_position 1))) black 1 \<and>
   king_keys (snd (move_piece (copy_board_map (place (place Board 0 0 king white) 0 3 rook black))
                     (to_position 0) (to_position 257))) white = [257] \<and>
   \<not> attacked (snd (move_piece (copy_board_map (place (place Board 0 0 king white) 0 3 rook black))
                     (to_position 0) (to_position 257))) black 257 \<and>
   can_be_captured (place (place Board 0 0 king white) 0 3 rook black)
     (snd (move_piece (copy_board_map (place (place Board 0 0 king white) 0 3 rook black))
                     (to_position 0) (to_position 257))) 257 = Inr False"
proof -
  let ?b = "place (place Board 0 0 king white) 0 3 rook black"
  let ?cell = "\<lparr>piece = king, piece_color = white\<rparr>"
  have wf: "wf_board ?b" by (simp add: wf_board_place wf_board_Board)
  have cell: "map_of ?b 0 = Some ?cell" by code_simp
  have occ: "has_piece ?cell" by code_simp
  have col: "piece_color ?cell \<noteq> absent" by simp
  have king: "king_keys ?b (piece_color ?cell) = [0]" by code_simp
  have cand: "candidate_moves ?b 0 ?cell = [513, 258, 256, 257, 1]" by code_simp
  have moves: "get_valid_moves ?b ?b 0 False = Inr [257, 256, 258, 513]" by code_simp
  have k: "257 \<in> set [257, 256, 258, 513 :: int]" by simp
  have dropped: "attacked (snd (move_piece (copy_board_map ?b) (to_position 0) (to_position 1)))
                   black 1"
    by code_simp
  have after: "king_keys (snd (move_piece (copy_board_map ?b) (to_position 0) (to_position 257)))
                 white = [257]"
    by code_simp
  from filtered_moves_keep_king_safe [OF wf cell occ col king moves k] after
  have "\<not> attacked (snd (move_piece (copy_board_map ?b) (to_position 0) (to_position 257)))
            black 257
        \<and> can_be_captured ?b
            (snd (move_piece (copy_board_map ?b) (to_position 0) (to_position 257))) 257
           = Inr False"
    by auto
  with cand moves dropped after show ?thesis by simp
qed

section \<open>The valid-cell set\<close>

text \<open>
  C4.  The freshly constructed board has exactly 91 cells, and its columns
  \<open>x = 0..10\<close> hold 6, 7, 8, 9, 10, 11, 10, 9, 8, 7, 6 of them.  (The keys are also
  pairwise distinct and ascending, and every cell starts empty.)
\<close>

theorem board_has_91_cells:
  "length Board = 91 \<and> distinct (map fst Board) \<and> sorted (map fst Board) \<and>
   map (\<lambda>x. length (filter (\<lambda>(key, cell). get_x key = x) Board)) [0..10]
     = [6, 7, 8, 9, 10, 11, 10, 9, 8, 7, 6] \<and>
   list_all (\<lambda>(key, cell). cell = empty_cell) Board"
  by code_simp

section \<open>The Random AI without a legal move\<close>

text \<open>
  C5.  The claim that the Random AI always returns when its side has no legal move
  fails when that side has pieces: with a single white pawn on \<open>(0, 5)\<close>, the top cell of
  column 0, white has a piece and no move, and \<open>CalculateRandomAIMove\<close> does not return,
  whatever values are drawn.  (With no piece at all it returns the empty array.)
\<close>

theorem random_ai_loops_without_legal_move:
  "get_piece_keys (place Board 0 5 pawn white) white = [5] \<and>
   get_all_piece_move_keys (place Board 0 5 pawn white) (place Board 0 5 pawn white) white False
     = Inr [] \<and>
   CalculateRandomAIMove (place Board 0 5 pawn white) True rand = None \<and>
   CalculateRandomAIMove Board True rand = Some (Inr [])"
proof -
  let ?b = "place Board 0 5 pawn white"
  have keys: "get_piece_keys ?b white = [5]" by code_simp
  have none: "get_valid_moves ?b ?b 5 False = Inr []" by code_simp
  have all: "get_all_piece_move_keys ?b ?b white False = Inr []"
    by (simp add: get_all_piece_move_keys_def keys none)
  have "random_move_loop ?b [5] rand 0 = None"
  proof (cases "random_move_loop ?b [5] rand 0")
    case (Some r)
    from random_move_loop_returns_only_with_a_move [OF Some] none show ?thesis by simp
  qed simp
  then have loop: "CalculateRandomAIMove ?b True rand = None"
    by (simp add: CalculateRandomAIMove_def keys)
  have "get_piece_keys Board white = []" by code_simp
  then have "CalculateRandomAIMove Board True rand = Some (Inr [])"
    by (simp add: CalculateRandomAIMove_def)
  with keys all loop show ?thesis by simp
qed

section \<open>Moving a piece\<close>

text \<open>
  C6.  \<open>move_piece\<close> never changes the key set.  When the start key and the goal key are
  both in the board, it clears the start cell and writes the piece and colour read
  from the start cell into the goal cell, whatever the two cells hold: no rule of the
  game is consulted.  (The start cell is cleared before the goal cell is written, so
  with start and goal the same cell that cell keeps its content.)  When either key is
  not in the board, the board is returned as it was.  Membership is that of the
  32-bit key of the position: \<open>Position{16777216, 0}\<close> has the key 0 of the cell \<open>(0, 0)\<close>.
\<close>

theorem move_piece_contract:
  "map fst (snd (move_piece in_board start goal)) = map fst in_board \<and>
   (\<forall>c. map_of in_board (pos_key start) = Some c \<and> is_valid_position in_board (pos_key goal)
      \<longrightarrow> map_of (snd (move_piece in_board start goal)) =
            (map_of in_board)(pos_key start \<mapsto> empty_cell, pos_key goal \<mapsto> c)) \<and>
   (\<not> (is_valid_position in_board (pos_key start) \<and> is_valid_position in_board (pos_key goal))
      \<longrightarrow> snd (move_piece in_board start goal) = in_board)"
  by (simp add: map_fst_move_piece map_of_move_piece move_piece_invalid)

theorem move_piece_contract_witness:
  "map_of (snd (move_piece (place Board 0 0 king white)
                  \<lparr>pos_x = 0, pos_y = 0\<rparr> \<lparr>pos_x = 0, pos_y = 1\<rparr>))
     = (map_of (place Board 0 0 king white))
         (0 \<mapsto> empty_cell, 1 \<mapsto> \<lparr>piece = king, piece_color = white\<rparr>) \<and>
   snd (move_piece (place Board 0 0 king white)
          \<lparr>pos_x = 0, pos_y = 0\<rparr> \<lparr>pos_x = 0, pos_y = 6\<rparr>) = place Board 0 0 king white \<and>
   pos_key \<lparr>pos_x = 16777216, pos_y = 0\<rparr> = 0 \<and>
   map_of (snd (move_piece (place Board 0 0 king white)
                  \<lparr>pos_x = 16777216, pos_y = 0\<rparr> \<lparr>pos_x = 0, pos_y = 1\<rparr>))
     = (map_of (place Board 0 0 king white))
         (0 \<mapsto> empty_cell, 1 \<mapsto> \<lparr>piece = king, piece_color = white\<rparr>)"
proof -
  let ?b = "place Board 0 0 king white"
  have src: "map_of ?b (pos_key \<lparr>pos_x = 0, pos_y = 0\<rparr>)
               = Some \<lparr>piece = king, piece_color = white\<rparr>"
    by code_simp
  have far: "map_of ?b (pos_key \<lparr>pos_x = 16777216, pos_y = 0\<rparr>)
               = Some \<lparr>piece = king, piece_color = white\<rparr>"
    by code_simp
  have dst: "is_valid_position ?b (pos_key \<lparr>pos_x = 0, pos_y = 1\<rparr>)"
    by code_simp
  have bad: "\<not> is_valid_position ?b (pos_key \<lparr>pos_x = 0, pos_y = 6\<rparr>)"
    by code_simp
  have k0: "pos_key \<lparr>pos_x = 0, pos_y = 0\<rparr> = 0" and k1: "pos_key \<lparr>pos_x = 0, pos_y = 1\<rparr> = 1"
    and kw: "pos_key \<lparr>pos_x = 16777216, pos_y = 0\<rparr> = 0"
    by (simp_all add: pos_key_def to_position_key_def wrap32_def)
  show ?thesis
    using move_piece_contract [of ?b "\<lparr>pos_x = 0, pos_y = 0\<rparr>" "\<lparr>pos_x = 0, pos_y = 1\<rparr>"]
      move_piece_contract [of ?b "\<lparr>pos_x = 0, pos_y = 0\<rparr>" "\<lparr>pos_x = 0, pos_y = 6\<rparr>"]
      move_piece_contract [of ?b "\<lparr>pos_x = 16777216, pos_y = 0\<rparr>" "\<lparr>pos_x = 0, pos_y = 1\<rparr>"]
      src far dst bad
    by (simp add: k0 k1 kw)
qed

section \<open>Pawn moves\<close>



section \<open>Exchanging the colours and the evaluation\<close>

text \<open>
  C8.  As stated the claim fails, because a pawn's capture directions depend on its
  colour: a black pawn on \<open>(5, 6)\<close> attacks a white king on \<open>(4, 5)\<close>, and after the
  exchange the white pawn on \<open>(5, 6)\<close> does not attack the black king on \<open>(4, 5)\<close>.
\<close>

theorem evaluate_swap_counterexample:
  "evaluate (place (place Board 4 5 king white) 5 6 pawn black)
            (place (place Board 4 5 king white) 5 6 pawn black) = Inr (- 101) \<and>
   evaluate (swap_colors (place (place Board 4 5 king white) 5 6 pawn black))
            (swap_colors (place (place Board 4 5 king white) 5 6 pawn black)) = Inr 1"
  by code_simp

text \<open>That board has its king on a capture square of the pawn.\<close>

lemma pawn_attack_board_not_clear:
  "\<not> kings_off_pawn_captures (place (place Board 4 5 king white) 5 6 pawn black)"
  by code_simp

text \<open>
  C8, as the code has it.  On every well-formed board on which no king stands on any
  of the four capture squares of a pawn, \<open>evaluate\<close> of the board with every piece's colour
  exchanged is the negation of \<open>evaluate\<close> of the board.  Pawns may be on the board.
\<close>

theorem evaluate_antisymmetric_kings_off_pawn_captures:
  assumes "wf_board b" and "kings_off_pawn_captures b"
  shows "\<exists>v. evaluate b b = Inr v \<and> evaluate (swap_colors b) (swap_colors b) = Inr (- v)"
proof -
  have d: "distinct (map fst b)" using assms(1) by (rule wf_board_distinct)
  then have "distinct (map fst (swap_colors b))"
    by (simp add: map_fst_swap_colors)
  then have "evaluate (swap_colors b) (swap_colors b) = Inr (- evaluate_by_cells b)"
    by (simp add: evaluate_is_by_cells evaluate_by_cells_swap [OF assms(2) d])
  moreover have "evaluate b b = Inr (evaluate_by_cells b)"
    using d by (rule evaluate_is_by_cells)
  ultimately show ?thesis by simp
qed

theorem evaluate_antisymmetric_kings_off_pawn_captures_witness:
  "evaluate
     (place (place (place (place (place Board 0 0 king white) 0 3 rook black) 10 0 king black)
        5 1 pawn white) 5 8 pawn black)
     (place (place (place (place (place Board 0 0 king white) 0 3 rook black) 10 0 king black)
        5 1 pawn white) 5 8 pawn black) = Inr (- 105) \<and>
   evaluate
     (swap_colors
       (place (place (place (place (place Board 0 0 king white) 0 3 rook black) 10 0 king black)
          5 1 pawn white) 5 8 pawn black))
     (swap_colors
       (place (place (place (place (place Board 0 0 king white) 0 3 rook black) 10 0 king black)
          5 1 pawn white) 5 8 pawn black)) = Inr 105"
proof -
  let ?b = "place (place (place (place (place Board 0 0 king white) 0 3 rook black)
              10 0 king black) 5 1 pawn white) 5 8 pawn black"
  have wf: "wf_board ?b" by (simp add: wf_board_place wf_board_Board)
  have off: "kings_off_pawn_captures ?b" by code_simp
  have v: "evaluate ?b ?b = Inr (- 105)" by code_simp
  from evaluate_antisymmetric_kings_off_pawn_captures [OF wf off] v show ?thesis by auto
qed

section \<open>Attack test on an empty cell\<close>

text \<open>
  C9.  On a well-formed board with consistent cells, \<open>can_be_captured\<close> returns
  \<open>false\<close> at every valid key whose cell holds no piece: the opposite of the colour
  \<open>absent\<close> is \<open>absent\<close>, and the cells of that colour generate no moves.  This holds also for an
  empty cell that a piece can move to, such as one in the path of a black rook.
\<close>

theorem empty_cell_never_capturable:
  assumes "wf_board in_board" and "cells_consistent in_board"
    and "map_of in_board key = Some c" and "\<not> has_piece c"
  shows "can_be_captured in_board in_board key = Inr False"
proof -
  from assms(3) have "(key, c) \<in> set in_board" by (rule map_of_SomeD)
  with assms(2,4) have "piece_color c = absent"
    by (auto simp: cells_consistent_def list_all_iff has_piece_def)
  then have "get_opposite_color c = absent" by (simp add: get_opposite_color_def)
  with can_be_captured_ok [OF assms(3), of in_board]
    not_attacked_by_absent [OF wf_board_distinct [OF assms(1)] assms(2), of key]
  show ?thesis by simp
qed

theorem empty_cell_never_capturable_witness:
  "0 \<in> set (candidate_moves (place Board 0 3 rook black) 3 \<lparr>piece = rook, piece_color = black\<rparr>) \<and>
   can_be_captured (place Board 0 3 rook black) (place Board 0 3 rook black) 0 = Inr False"
proof -
  let ?b = "place Board 0 3 rook black"
  have wf: "wf_board ?b" by (simp add: wf_board_place wf_board_Board)
  have cc: "cells_consistent ?b" by code_simp
  have c: "map_of ?b 0 = Some empty_cell" by code_simp
  have e: "\<not> has_piece empty_cell" by code_simp
  have r: "0 \<in> set (candidate_moves ?b 3 \<lparr>piece = rook, piece_color = black\<rparr>)" by code_simp
  from empty_cell_never_capturable [OF wf cc c e] r show ?thesis by simp
qed

section \<open>The return value of moving a piece\<close>

text \<open>
  C10.  \<open>move_piece\<close> returns \<open>true\<close> for every pair of positions; when an endpoint is
  not in the board it returns \<open>true\<close> together with the unchanged board, so the result
  does not tell whether the move took place.
\<close>

theorem move_piece_returns_true:
  "fst (move_piece in_board start goal) = True \<and>
   (\<not> (is_valid_position in_board (pos_key start) \<and> is_valid_position in_board (pos_key goal))
      \<longrightarrow> move_piece in_board start goal = (True, in_board))"
  by (simp add: move_piece_def Let_def split: option.splits)

theorem move_piece_returns_true_witness:
  "move_piece Board \<lparr>pos_x = 11, pos_y = 0\<rparr> \<lparr>pos_x = 0, pos_y = 0\<rparr> = (True, Board) \<and>
   fst (move_piece Board \<lparr>pos_x = 0, pos_y = 0\<rparr> \<lparr>pos_x = 0, pos_y = 1\<rparr>) = True \<and>
   is_valid_position (place Board 0 0 king white) (pos_key \<lparr>pos_x = 16777216, pos_y = 0\<rparr>) \<and>
   fst (move_piece (place Board 0 0 king white)
          \<lparr>pos_x = 16777216, pos_y = 0\<rparr> \<lparr>pos_x = 0, pos_y = 1\<rparr>) = True"
proof -
  have bad: "\<not> is_valid_position Board (pos_key \<lparr>pos_x = 11, pos_y = 0\<rparr>)"
    by code_simp
  have far: "is_valid_position (place Board 0 0 king white)
               (pos_key \<lparr>pos_x = 16777216, pos_y = 0\<rparr>)"
    by code_simp
  show ?thesis
    using move_piece_returns_true [of Board "\<lparr>pos_x = 11, pos_y = 0\<rparr>" "\<lparr>pos_x = 0, pos_y = 0\<rparr>"]
      move_piece_returns_true [of Board "\<lparr>pos_x = 0, pos_y = 0\<rparr>" "\<lparr>pos_x = 0, pos_y = 1\<rparr>"]
      move_piece_returns_true [of "place Board 0 0 king white"
        "\<lparr>pos_x = 16777216, pos_y = 0\<rparr>" "\<lparr>pos_x = 0, pos_y = 1\<rparr>"] bad far
    by simp
qed

end
